theory Spec2Isabelle
  imports Complex_Main "HOL-Library.Sublist"
begin

section \<open>JavaScript \<open>Map\<close>: an insertion-ordered association list\<close>

text \<open>
  A JavaScript \<open>Map<string, V>\<close> keeps its entries in the order in which their keys were
  first inserted. \<open>set\<close> on a key that is present replaces the value in place, \<open>set\<close> on a new
  key appends the entry, \<open>delete\<close> removes the entry.
\<close>

type_synonym 'v js_map = "(string \<times> 'v) list"

definition map_get :: "'v js_map \<Rightarrow> string \<Rightarrow> 'v option" where
  "map_get m k = map_of m k"

definition map_has :: "'v js_map \<Rightarrow> string \<Rightarrow> bool" where
  "map_has m k = (map_of m k \<noteq> None)"

fun map_set :: "'v js_map \<Rightarrow> string \<Rightarrow> 'v \<Rightarrow> 'v js_map" where
  "map_set [] k v = [(k, v)]"
| "map_set ((k', v') # m) k v = (if k' = k then (k, v) # m else (k', v') # map_set m k v)"

definition map_delete :: "'v js_map \<Rightarrow> string \<Rightarrow> 'v js_map" where
  "map_delete m k = filter (\<lambda>e. fst e \<noteq> k) m"

definition map_keys :: "'v js_map \<Rightarrow> string list" where
  "map_keys m = map fst m"

lemma map_keys_map_set:
  "map_keys (map_set m k v) = (if k \<in> set (map_keys m) then map_keys m else map_keys m @ [k])"
  by (induction m) (force simp: map_keys_def)+

section \<open>TreeCache (src/utils/tree-optimizer.ts)\<close>

text \<open>
  The class keeps one static \<open>Map\<close> and the constant \<open>maxSize = 100\<close>. The state of the class is
  the map; every method takes it and the mutating ones return the new one.
\<close>

definition maxSize :: nat where
  "maxSize = 100"

definition cache_set :: "'v js_map \<Rightarrow> string \<Rightarrow> 'v \<Rightarrow> 'v js_map" where
  "cache_set cache k v =
     (if length cache \<ge> maxSize
      then (case map_keys cache of
              [] \<Rightarrow> map_set cache k v
            | firstKey # _ \<Rightarrow> map_set (map_delete cache firstKey) k v)
      else map_set cache k v)"

definition cache_get :: "'v js_map \<Rightarrow> string \<Rightarrow> 'v option" where
  "cache_get cache k = map_get cache k"

definition cache_has :: "'v js_map \<Rightarrow> string \<Rightarrow> bool" where
  "cache_has cache k = map_has cache k"

definition cache_clear :: "'v js_map \<Rightarrow> 'v js_map" where
  "cache_clear cache = []"

text \<open>A caller's interaction with the cache: a sequence of \<open>set\<close> and \<open>get\<close> calls.\<close>

datatype 'v cache_call = SetCall string 'v | GetCall string

fun cache_step :: "'v js_map \<Rightarrow> 'v cache_call \<Rightarrow> 'v js_map" where
  "cache_step cache (SetCall k v) = cache_set cache k v"
| "cache_step cache (GetCall k) = (let r = cache_get cache k in cache)"

definition cache_run :: "'v cache_call list \<Rightarrow> 'v js_map \<Rightarrow> 'v js_map" where
  "cache_run calls cache = foldl cache_step cache calls"

fun set_keys :: "'v cache_call list \<Rightarrow> string list" where
  "set_keys [] = []"
| "set_keys (SetCall k v # cs) = k # set_keys cs"
| "set_keys (GetCall k # cs) = set_keys cs"

text \<open>
  An example interaction: 101 \<open>set\<close> calls with the pairwise distinct keys \<open>k\<close>, \<open>kk\<close>,
  \<open>kkk\<close>, ..., each followed by a \<open>get\<close> of the first key.
\<close>

definition fifo_example :: "nat cache_call list" where
  "fifo_example =
     concat (map (\<lambda>n. [SetCall (replicate (Suc n) (CHR ''k'')) n, GetCall ''k'']) [0..<101])"

section \<open>Numbers and their decimal text\<close>

text \<open>
  Amounts, players, streets and depths are JavaScript numbers. They are modelled as integers
  (chip counts and indices; every integer of magnitude below \<open>2^53\<close> is a JavaScript
  number). \<open>Number.prototype.toString\<close> of an integer is its decimal text.
\<close>

definition digit :: "nat \<Rightarrow> char" where
  "digit d = ''0123456789'' ! d"

function show_nat :: "nat \<Rightarrow> string" where
  "show_nat n = (if n < 10 then [digit n] else show_nat (n div 10) @ [digit (n mod 10)])"
  by pat_completeness auto
termination
  by (relation "measure (\<lambda>n. n)") auto

declare show_nat.simps [simp del]

definition show_int :: "int \<Rightarrow> string" where
  "show_int i = (if i < 0 then ''-'' @ show_nat (nat (- i)) else show_nat (nat i))"

text \<open>
  The quotient \<open>a / b\<close> of two numbers is the double nearest to the exact quotient, ties to
  the even mantissa. For integers \<open>0 < b \<le> a\<close> with \<open>a / b < 2^53\<close> that double is
  \<open>m / 2^k\<close> for the pair \<open>(m, k)\<close> computed here: \<open>k\<close> scales the quotient into
  \<open>[2^52, 2^53)\<close> and \<open>m\<close> is the scaled quotient rounded to an integer.
\<close>

function bit_length :: "int \<Rightarrow> nat" where
  "bit_length n = (if n \<le> 0 then 0 else Suc (bit_length (n div 2)))"
  by pat_completeness auto
termination
  by (relation "measure nat") auto

declare bit_length.simps [simp del]

definition round_half_even :: "int \<Rightarrow> int \<Rightarrow> int" where
  "round_half_even n d =
     (let q = n div d; r = n mod d
      in if 2 * r < d then q else if d < 2 * r then q + 1 else if even q then q else q + 1)"

definition js_divide :: "int \<Rightarrow> int \<Rightarrow> int \<times> nat" where
  "js_divide a b = (let k = 53 - bit_length (a div b) in (round_half_even (a * 2 ^ k) b, k))"

text \<open>
  \<open>x.toFixed(f)\<close> for a double \<open>x = m / 2^k\<close> with \<open>0 \<le> x < 10^21\<close>: the integer \<open>n\<close>
  for which \<open>n / 10^f\<close> is nearest to \<open>x\<close>, the larger one of two, printed with \<open>f\<close>
  digits after the point.
\<close>

definition toFixed :: "int \<times> nat \<Rightarrow> nat \<Rightarrow> string" where
  "toFixed x f =
     (case x of (m, k) \<Rightarrow>
        let n = nat ((2 * m * 10 ^ f + 2 ^ k) div 2 ^ (k + 1));
            frac = show_nat (n mod 10 ^ f)
        in if f = 0 then show_nat n
           else show_nat (n div 10 ^ f) @ ''.'' @ replicate (f - length frac) (CHR ''0'') @ frac)"

section \<open>Labels: formatAmount, getActionName, formatActionLabel, getPlayerName\<close>

text \<open>
  \<open>TreeGenerator\<close> (src/utils/tree-optimizer.ts) and \<open>TreeNavigator\<close> (src/unnamed/part_000)
  each carry a private \<open>formatAmount\<close> with the same body; \<open>getActionName\<close> of the generator
  and \<open>formatActionLabel\<close> of the navigator have the same body as well.
\<close>

definition formatAmount :: "int \<Rightarrow> string" where
  "formatAmount amount =
     (if amount \<ge> 1000000 then toFixed (js_divide amount 1000000) 1 @ ''M''
      else if amount \<ge> 1000 then toFixed (js_divide amount 1000) 0 @ ''K''
      else show_int amount)"

definition getActionName :: "string \<Rightarrow> int \<Rightarrow> string" where
  "getActionName type amount =
     (if type = ''F'' then ''Fold''
      else if type = ''C'' then ''Call''
      else if type = ''X'' then ''Check''
      else if type = ''R'' then (if amount > 0 then ''Raise '' @ formatAmount amount else ''Raise'')
      else type)"

definition nav_formatAmount :: "int \<Rightarrow> string" where
  "nav_formatAmount amount =
     (if amount \<ge> 1000000 then toFixed (js_divide amount 1000000) 1 @ ''M''
      else if amount \<ge> 1000 then toFixed (js_divide amount 1000) 0 @ ''K''
      else show_int amount)"

definition formatActionLabel :: "string \<Rightarrow> int \<Rightarrow> string" where
  "formatActionLabel type amount =
     (if type = ''F'' then ''Fold''
      else if type = ''C'' then ''Call''
      else if type = ''X'' then ''Check''
      else if type = ''R'' then (if amount > 0 then ''Raise '' @ nav_formatAmount amount else ''Raise'')
      else type)"

definition positions :: "string list" where
  "positions = [''SB'', ''BB'', ''BTN'', ''CO'', ''MP'', ''UTG'']"

definition getPlayerName :: "int \<Rightarrow> string" where
  "getPlayerName player =
     (if 0 \<le> player \<and> nat player < length positions then positions ! nat player
      else ''P'' @ show_int player)"

section \<open>The tree schema (src/types/tree.ts)\<close>

record ActionSequence =
  seq_player :: int
  seq_type :: string
  seq_amount :: int
  seq_street :: int

record NodeAction =
  act_type :: string
  act_amount :: int
  act_node :: "string option"

record TreeNode =
  node_id :: string
  parentId :: "string option"
  player :: int
  street :: int
  sequence :: "ActionSequence list"
  actions :: "NodeAction list"
  children :: "string list"
  depth :: int
  path :: string
  isTerminal :: bool
  hasHandData :: bool

record TreeMetadata =
  totalNodes :: nat
  terminalNodes :: nat
  generatedAt :: string
  version :: string

text \<open>
  A number that a computation of the repository can yield besides a finite one: \<open>0 / 0\<close> is
  \<open>NaN\<close> and \<open>Math.max()\<close> of no arguments is \<open>-Infinity\<close>. A finite value is a double, kept
  as the rational number it is.
\<close>

datatype js_number = Num rat | NaN | PosInfinity | NegInfinity

text \<open>
  The quotient \<open>a / b\<close> of two integers of magnitude below \<open>2^53\<close> (each is a double) is the
  double nearest to the exact quotient, ties to the even mantissa. For positive \<open>a\<close> and \<open>b\<close>
  that double is \<open>m / 2^k\<close> for the pair \<open>(m, k)\<close> of \<open>nearest_double\<close>: \<open>k\<close> is the least shift
  with \<open>2^52 \<le> a * 2^k / b\<close> and \<open>m\<close> the shifted quotient rounded to an integer. (The
  quotients of such integers are neither subnormal nor infinite.) Division by zero yields
  \<open>NaN\<close> for \<open>0 / 0\<close> and an infinity otherwise.
\<close>

definition nearest_double :: "int \<Rightarrow> int \<Rightarrow> int \<times> nat" where
  "nearest_double a b =
     (let k0 = bit_length b + 52 - bit_length a;
          k = (if b * 2 ^ 52 \<le> a * 2 ^ k0 then k0 else k0 + 1)
      in (round_half_even (a * 2 ^ k) b, k))"

definition js_quotient :: "int \<Rightarrow> int \<Rightarrow> js_number" where
  "js_quotient a b =
     (if b = 0 then (if a = 0 then NaN else if a > 0 then PosInfinity else NegInfinity)
      else if a = 0 then Num 0
      else (case nearest_double \<bar>a\<bar> \<bar>b\<bar> of
              (m, k) \<Rightarrow> Num ((if (a < 0) = (b < 0) then 1 else - 1) * (of_int m / 2 ^ k))))"

fun math_max :: "int list \<Rightarrow> js_number" where
  "math_max [] = NegInfinity"
| "math_max (x # xs) = Num (of_int (fold max xs x))"

text \<open>
  \<open>nodes\<close> is a plain object (\<open>Record<string, TreeNode>\<close>), kept as the list of its own
  properties in the order \<open>Object.entries\<close> and \<open>Object.keys\<close> enumerate them.
\<close>

record OptimizedTree =
  nodes :: "(string \<times> TreeNode) list"
  root :: string
  maxDepth :: js_number
  playerCount :: nat
  metadata :: TreeMetadata

text \<open>
  A string is falsy exactly when it is empty; an optional string is truthy when it is present
  and not empty.
\<close>

fun truthy :: "string option \<Rightarrow> bool" where
  "truthy None = False"
| "truthy (Some s) = (s \<noteq> [])"

section \<open>Plain objects: property order and property lookup\<close>

text \<open>
  The own properties of a plain object are enumerated with the array indices first (the
  canonical decimal strings below \<open>2^32 - 1\<close>), in ascending numeric order, and the other
  string keys after them in insertion order. \<open>Object.fromEntries\<close> of a \<open>Map\<close> therefore yields
  the entries of the map in this order.
\<close>

definition array_index :: "string \<Rightarrow> int" where
  "array_index s = foldl (\<lambda>a c. 10 * a + (of_char c - 48)) 0 s"

definition is_array_index :: "string \<Rightarrow> bool" where
  "is_array_index s =
     (s \<noteq> [] \<and> list_all (\<lambda>c. c \<in> set ''0123456789'') s \<and> (s = ''0'' \<or> hd s \<noteq> CHR ''0'') \<and>
      array_index s < 4294967295)"

definition fromEntries :: "'v js_map \<Rightarrow> (string \<times> 'v) list" where
  "fromEntries m =
     sort_key (\<lambda>e. array_index (fst e)) (filter (\<lambda>e. is_array_index (fst e)) m) @
     filter (\<lambda>e. \<not> is_array_index (fst e)) m"

text \<open>
  Reading \<open>obj[key]\<close> on a plain object finds an own property first and then follows the
  prototype chain: a key that is not an own property but names a member of
  \<open>Object.prototype\<close> yields that member (a function, or for \<open>__proto__\<close> the prototype object
  itself), which is truthy and has none of the fields of a node. Every other key yields
  \<open>undefined\<close>. The names listed are the members ECMAScript defines, Annex B included, as
  browsers and Node.js have them.
\<close>

datatype 'a js_property = Own 'a | Inherited | Undefined

definition object_prototype_names :: "string list" where
  "object_prototype_names =
     [''constructor'', ''__defineGetter__'', ''__defineSetter__'', ''hasOwnProperty'',
      ''__lookupGetter__'', ''__lookupSetter__'', ''isPrototypeOf'', ''propertyIsEnumerable'',
      ''toString'', ''valueOf'', ''__proto__'', ''toLocaleString'']"

definition object_get :: "(string \<times> 'a) list \<Rightarrow> string \<Rightarrow> 'a js_property" where
  "object_get obj k =
     (case map_of obj k of
        Some v \<Rightarrow> Own v
      | None \<Rightarrow> if k \<in> set object_prototype_names then Inherited else Undefined)"

section \<open>TreeGenerator (src/utils/tree-optimizer.ts)\<close>

text \<open>
  The flat collection is the generator's \<open>Map\<close> \<open>this.nodes\<close> from record identifier to raw
  record. A raw record is parsed JSON; its fields are optional, as the code's \<open>||\<close> and \<open>?.\<close>
  defaults provide for. \<open>raw_hands\<close> holds the own keys of the \<open>hands\<close> object.
\<close>

record RawAction =
  ra_type :: string
  ra_amount :: "int option"
  ra_node :: "string option"

record RawNode =
  raw_player :: "int option"
  raw_street :: "int option"
  raw_sequence :: "ActionSequence list option"
  raw_actions :: "RawAction list option"
  raw_hands :: "string list option"

text \<open>
  The ways \<open>generateTree\<close> can fail: \<open>findRootNode\<close> throws \<open>Error('Could not find root node')\<close>,
  and the recursion of \<open>buildTreeStructure\<close> exhausts the call stack (\<open>RangeError\<close>).
\<close>

datatype gen_error = RootNotFound | RangeError

text \<open>\<open>findRootNode\<close>: the first loop, over the entries of the map in order.\<close>

fun find_first_root :: "RawNode js_map \<Rightarrow> string option" where
  "find_first_root [] = None"
| "find_first_root ((nodeId, nodeData) # rest) =
     (if raw_sequence nodeData = Some [] \<or> nodeId = ''0'' then Some nodeId
      else find_first_root rest)"

definition raw_actions_or_empty :: "RawNode \<Rightarrow> RawAction list" where
  "raw_actions_or_empty rawNode = (case raw_actions rawNode of None \<Rightarrow> [] | Some as \<Rightarrow> as)"

text \<open>The targets a record's actions carry: every truthy \<open>action.node\<close>, in action order.\<close>

definition action_targets :: "RawNode \<Rightarrow> string list" where
  "action_targets rawNode =
     map (\<lambda>a. the (ra_node a)) (filter (\<lambda>a. truthy (ra_node a)) (raw_actions_or_empty rawNode))"

definition childNodes :: "RawNode js_map \<Rightarrow> string set" where
  "childNodes flat = set (concat (map (\<lambda>e. action_targets (snd e)) flat))"

definition findRootNode :: "RawNode js_map \<Rightarrow> gen_error + string" where
  "findRootNode flat =
     (case find_first_root flat of
        Some nodeId \<Rightarrow> Inr nodeId
      | None \<Rightarrow>
          (case filter (\<lambda>nodeId. nodeId \<notin> childNodes flat) (map_keys flat) of
             nodeId # _ \<Rightarrow> Inr nodeId
           | [] \<Rightarrow> Inl RootNotFound))"

definition path_separator :: string where
  "path_separator =
     [CHR '' '', CHR 0xC3, CHR 0xA2, CHR 0xE2, CHR 0x80, CHR 0xA0, CHR 0xE2, CHR 0x80, CHR 0x99,
      CHR '' '']"

fun join :: "string \<Rightarrow> string list \<Rightarrow> string" where
  "join sep [] = []"
| "join sep [s] = s"
| "join sep (s # t # ss) = s @ sep @ join sep (t # ss)"

definition buildNodePath :: "ActionSequence list \<Rightarrow> string" where
  "buildNodePath sq =
     (if sq = [] then ''Root''
      else join path_separator
             (map (\<lambda>action. getPlayerName (seq_player action) @ '': '' @
                              getActionName (seq_type action) (seq_amount action)) sq))"

definition or_zero :: "int option \<Rightarrow> int" where
  "or_zero x = (case x of None \<Rightarrow> 0 | Some v \<Rightarrow> v)"

text \<open>The node that \<open>buildTreeStructure\<close> creates for a raw record.\<close>

definition make_node :: "string \<Rightarrow> RawNode \<Rightarrow> string option \<Rightarrow> int \<Rightarrow> TreeNode" where
  "make_node nodeId rawNode pid d =
     (let sq = (case raw_sequence rawNode of None \<Rightarrow> [] | Some s \<Rightarrow> s);
          kids = action_targets rawNode
      in \<lparr> node_id = nodeId,
           parentId = pid,
           player = or_zero (raw_player rawNode),
           street = or_zero (raw_street rawNode),
           sequence = sq,
           actions = map (\<lambda>action. \<lparr> act_type = ra_type action,
                                      act_amount = or_zero (ra_amount action),
                                      act_node = (if truthy (ra_node action) then ra_node action
                                                  else None) \<rparr>)
                         (raw_actions_or_empty rawNode),
           children = kids,
           depth = d,
           path = buildNodePath sq,
           isTerminal = (length kids = 0),
           hasHandData = (case raw_hands rawNode of None \<Rightarrow> False | Some ks \<Rightarrow> length ks > 0) \<rparr>)"

text \<open>
  \<open>buildTreeStructure(nodeId, parentId, depth)\<close> reads \<open>this.nodes\<close> and updates
  \<open>this.processedNodes\<close>; the model takes the map of processed nodes and returns the updated
  one. \<open>forEach_child\<close> is the loop \<open>children.forEach(childId => ...)\<close> at the end of its body.
  This is the recursion as it runs when the call stack never runs out: what it computes
  whenever it returns. The recursion on a call stack of a given size follows it
  (\<open>buildTreeStructure_stack\<close>).
\<close>

function buildTreeStructure ::
    "RawNode js_map \<Rightarrow> string \<Rightarrow> string option \<Rightarrow> int \<Rightarrow> TreeNode js_map \<Rightarrow> TreeNode js_map"
  and forEach_child ::
    "RawNode js_map \<Rightarrow> string list \<Rightarrow> string \<Rightarrow> int \<Rightarrow> TreeNode js_map \<Rightarrow> TreeNode js_map"
where
  "buildTreeStructure flat nodeId pid d processedNodes =
     (case map_get flat nodeId of
        None \<Rightarrow> processedNodes
      | Some rawNode \<Rightarrow>
          if map_has processedNodes nodeId then processedNodes
          else let treeNode = make_node nodeId rawNode pid d
               in forEach_child flat (children treeNode) nodeId (d + 1)
                    (map_set processedNodes nodeId treeNode))"
| "forEach_child flat [] nodeId d processedNodes = processedNodes"
| "forEach_child flat (childId # rest) nodeId d processedNodes =
     forEach_child flat rest nodeId d
       (buildTreeStructure flat childId (Some nodeId) d processedNodes)"
  by pat_completeness auto

lemma build_dom_keys:
  "buildTreeStructure_forEach_child_dom (Inl (flat, nodeId, pid, d, processedNodes)) \<Longrightarrow>
     set (map_keys processedNodes) \<subseteq>
     set (map_keys (buildTreeStructure flat nodeId pid d processedNodes))"
  "buildTreeStructure_forEach_child_dom (Inr (flat, kids, nodeId, d, processedNodes)) \<Longrightarrow>
     set (map_keys processedNodes) \<subseteq>
     set (map_keys (forEach_child flat kids nodeId d processedNodes))"
proof (induction rule: buildTreeStructure_forEach_child.pinduct)
  case (1 flat nodeId pid d processedNodes)
  show ?case
  proof (cases "map_get flat nodeId")
    case None
    then show ?thesis using 1(1) by (simp add: buildTreeStructure.psimps)
  next
    case (Some rawNode)
    show ?thesis
    proof (cases "map_has processedNodes nodeId")
      case True
      then show ?thesis using 1(1) Some by (simp add: buildTreeStructure.psimps)
    next
      case False
      let ?n = "make_node nodeId rawNode pid d"
      have "set (map_keys (map_set processedNodes nodeId ?n)) \<subseteq>
            set (map_keys (forEach_child flat (children ?n) nodeId (d + 1)
                             (map_set processedNodes nodeId ?n)))"
        using 1(2)[OF Some False refl] .
      moreover have "set (map_keys processedNodes) \<subseteq> set (map_keys (map_set processedNodes nodeId ?n))"
        by (auto simp: map_keys_map_set)
      ultimately show ?thesis
        using 1(1) Some False by (auto simp: buildTreeStructure.psimps Let_def)
    qed
  qed
next
  case (2 flat nodeId d processedNodes)
  then show ?case by (simp add: forEach_child.psimps)
next
  case (3 flat childId rest nodeId d processedNodes)
  then show ?case by (auto simp: forEach_child.psimps)
qed

termination buildTreeStructure
proof (relation
    "(\<lambda>x. case x of
            Inl (flat, nodeId, pid, d, p) \<Rightarrow> card (set (map_keys flat) - set (map_keys p))
          | Inr (flat, kids, nodeId, d, p) \<Rightarrow> card (set (map_keys flat) - set (map_keys p)))
     <*mlex*>
     measure (\<lambda>x. case x of Inl _ \<Rightarrow> 0 | Inr (flat, kids, nodeId, d, p) \<Rightarrow> Suc (length kids))",
    goal_cases)
  case 1
  show ?case by (simp add: wf_mlex)
next
  case (2 flat nodeId pid d processedNodes rawNode treeNode)
  have "nodeId \<in> set (map_keys flat)"
    using 2(1) by (auto simp: map_get_def map_keys_def dest: map_of_SomeD intro: rev_image_eqI)
  moreover have "nodeId \<notin> set (map_keys processedNodes)"
    using 2(2) by (simp add: map_has_def map_keys_def map_of_eq_None_iff)
  ultimately have
    "card (set (map_keys flat) - set (map_keys (map_set processedNodes nodeId treeNode)))
       < card (set (map_keys flat) - set (map_keys processedNodes))"
    by (intro psubset_card_mono) (auto simp: map_keys_map_set)
  then show ?case by (simp add: mlex_less)
next
  case (3 flat childId rest nodeId d processedNodes)
  show ?case by (rule mlex_leq) simp_all
next
  case (4 flat childId rest nodeId d processedNodes)
  have "set (map_keys flat) - set (map_keys (buildTreeStructure flat childId (Some nodeId) d processedNodes))
          \<subseteq> set (map_keys flat) - set (map_keys processedNodes)"
    using build_dom_keys(1)[OF 4] by blast
  then have "card (set (map_keys flat) - set (map_keys (buildTreeStructure flat childId (Some nodeId) d processedNodes)))
          \<le> card (set (map_keys flat) - set (map_keys processedNodes))"
    by (intro card_mono) auto
  then show ?case by (intro mlex_leq) simp_all
qed

declare buildTreeStructure.simps [simp del]

definition settings_playerCount :: "nat option \<Rightarrow> nat" where
  "settings_playerCount stacks = (case stacks of None \<Rightarrow> 3 | Some n \<Rightarrow> if n = 0 then 3 else n)"

text \<open>
  \<open>generateTree\<close> on a fresh generator (\<open>processedNodes\<close> empty). Its two inputs from outside
  the class are taken as parameters: the length of \<open>settings.handdata.stacks\<close> (if present) and
  the timestamp \<open>new Date().toISOString()\<close>.
\<close>

definition generateTree :: "nat option \<Rightarrow> string \<Rightarrow> RawNode js_map \<Rightarrow> gen_error + OptimizedTree" where
  "generateTree stacks now flat =
     (case findRootNode flat of
        Inl e \<Rightarrow> Inl e
      | Inr rootId \<Rightarrow>
          let processedNodes = buildTreeStructure flat rootId None 0 [];
              terminal = length (filter isTerminal (map snd processedNodes))
          in Inr \<lparr> nodes = fromEntries processedNodes,
                   root = rootId,
                   maxDepth = math_max (map (\<lambda>n. depth n) (map snd processedNodes)),
                   playerCount = settings_playerCount stacks,
                   metadata = \<lparr> totalNodes = length processedNodes,
                                terminalNodes = terminal,
                                generatedAt = now,
                                version = ''1.0.0'' \<rparr> \<rparr>)"

text \<open>
  Example collections. \<open>root_example\<close> holds a record named \<open>0\<close> with a non-empty sequence,
  followed by a record named \<open>5\<close> with an empty sequence.
\<close>

definition step_example :: ActionSequence where
  "step_example = \<lparr> seq_player = 0, seq_type = ''C'', seq_amount = 0, seq_street = 0 \<rparr>"

definition raw_leaf :: "ActionSequence list \<Rightarrow> RawNode" where
  "raw_leaf sq =
     \<lparr> raw_player = Some 0, raw_street = Some 0, raw_sequence = Some sq, raw_actions = Some [],
       raw_hands = None \<rparr>"

definition raw_to :: "ActionSequence list \<Rightarrow> string list \<Rightarrow> RawNode" where
  "raw_to sq targets =
     \<lparr> raw_player = Some 0, raw_street = Some 0, raw_sequence = Some sq,
       raw_actions = Some (map (\<lambda>t. \<lparr> ra_type = ''C'', ra_amount = None, ra_node = Some t \<rparr>) targets),
       raw_hands = None \<rparr>"

definition root_example :: "RawNode js_map" where
  "root_example = [(''0'', raw_leaf [step_example]), (''5'', raw_leaf [])]"

section \<open>Well-formedness of the processed nodes\<close>

text \<open>
  Predicates for stating what \<open>buildTreeStructure\<close> maintains. An entry \<open>comes from\<close> the
  collection when it is the node made for the raw record of its key with the entry's own parent
  and depth; its parent link is sound when the parent is a processed node one level up that
  lists the entry among its children; an entry is closed when each of its children that names
  a record of the collection has been processed.
\<close>

definition from_raw :: "RawNode js_map \<Rightarrow> string \<times> TreeNode \<Rightarrow> bool" where
  "from_raw flat e =
     (case map_get flat (fst e) of
        None \<Rightarrow> False
      | Some rawNode \<Rightarrow> snd e = make_node (fst e) rawNode (parentId (snd e)) (depth (snd e)))"

definition parent_link :: "TreeNode js_map \<Rightarrow> string \<Rightarrow> string option \<Rightarrow> int \<Rightarrow> bool" where
  "parent_link P k pid d =
     (case pid of
        None \<Rightarrow> True
      | Some p \<Rightarrow>
          (case map_get P p of
             None \<Rightarrow> False
           | Some pn \<Rightarrow> d = depth pn + 1 \<and> k \<in> set (children pn)))"

definition parent_ok :: "TreeNode js_map \<Rightarrow> string \<times> TreeNode \<Rightarrow> bool" where
  "parent_ok P e = parent_link P (fst e) (parentId (snd e)) (depth (snd e))"

definition wf_processed :: "RawNode js_map \<Rightarrow> TreeNode js_map \<Rightarrow> bool" where
  "wf_processed flat P =
     (distinct (map_keys P) \<and> list_all (from_raw flat) P \<and> list_all (parent_ok P) P)"

definition closed_entry :: "RawNode js_map \<Rightarrow> TreeNode js_map \<Rightarrow> string \<times> TreeNode \<Rightarrow> bool" where
  "closed_entry flat P e =
     list_all (\<lambda>c. map_get flat c = None \<or> map_has P c) (children (snd e))"

section \<open>TreeOptimizer.validateTree (src/utils/tree-optimizer.ts)\<close>

record ValidationResult =
  isValid :: bool
  errors :: "string list"

text \<open>
  The errors pushed while visiting one entry of \<open>Object.entries(tree.nodes)\<close>: the four
  checks of the loop body, in their order. \<open>nodeIds\<close> is the set of own keys. The depth check reads
  \<open>tree.nodes[node.parentId]\<close>, a property lookup: for an inherited member \<open>parent.depth\<close> is
  \<open>undefined\<close>, \<open>parent.depth + 1\<close> is \<open>NaN\<close> and the comparison \<open>!==\<close> holds.
\<close>

definition parent_reference_errors :: "string set \<Rightarrow> string \<Rightarrow> TreeNode \<Rightarrow> string list" where
  "parent_reference_errors nodeIds nodeId node =
     (if truthy (parentId node) \<and> the (parentId node) \<notin> nodeIds
      then [''Node '' @ nodeId @ '' references non-existent parent '' @ the (parentId node)]
      else [])"

definition child_reference_errors :: "string set \<Rightarrow> string \<Rightarrow> TreeNode \<Rightarrow> string list" where
  "child_reference_errors nodeIds nodeId node =
     concat (map (\<lambda>childId.
               if childId \<notin> nodeIds
               then [''Node '' @ nodeId @ '' references non-existent child '' @ childId]
               else [])
             (children node))"

definition action_reference_errors :: "string set \<Rightarrow> string \<Rightarrow> TreeNode \<Rightarrow> string list" where
  "action_reference_errors nodeIds nodeId node =
     concat (map (\<lambda>(action, index).
               if truthy (act_node action) \<and> the (act_node action) \<notin> nodeIds
               then [''Node '' @ nodeId @ '' action '' @ show_nat index @
                     '' references non-existent node '' @ the (act_node action)]
               else [])
             (zip (actions node) [0 ..< length (actions node)]))"

definition depth_errors :: "OptimizedTree \<Rightarrow> string \<Rightarrow> TreeNode \<Rightarrow> string list" where
  "depth_errors tree nodeId node =
     (if truthy (parentId node)
      then (case object_get (nodes tree) (the (parentId node)) of
              Own parent \<Rightarrow>
                if depth parent + 1 \<noteq> depth node
                then [''Node '' @ nodeId @ '' has inconsistent depth ('' @ show_int (depth node) @
                      '') relative to parent ('' @ show_int (depth parent) @ '')'']
                else []
            | Inherited \<Rightarrow>
                [''Node '' @ nodeId @ '' has inconsistent depth ('' @ show_int (depth node) @
                 '') relative to parent (undefined)'']
            | Undefined \<Rightarrow> [])
      else [])"

definition node_errors :: "OptimizedTree \<Rightarrow> string set \<Rightarrow> string \<times> TreeNode \<Rightarrow> string list" where
  "node_errors tree nodeIds e =
     (case e of (nodeId, node) \<Rightarrow>
        parent_reference_errors nodeIds nodeId node @
        child_reference_errors nodeIds nodeId node @
        action_reference_errors nodeIds nodeId node @
        depth_errors tree nodeId node)"

definition validateTree :: "OptimizedTree \<Rightarrow> ValidationResult" where
  "validateTree tree =
     (let nodeIds = set (map fst (nodes tree));
          errs = (if root tree \<notin> nodeIds
                  then [''Root node '' @ root tree @ '' not found in nodes'']
                  else []) @
                 concat (map (node_errors tree nodeIds) (nodes tree))
      in \<lparr> isValid = (length errs = 0), errors = errs \<rparr>)"

text \<open>A collection is self-consistent when every action target names a record of it.\<close>

definition targets_resolve :: "RawNode js_map \<Rightarrow> bool" where
  "targets_resolve flat = list_all (\<lambda>e. list_all (map_has flat) (action_targets (snd e))) flat"

text \<open>
  More example collections: a tree (root \<open>0\<close> with the leaves \<open>1\<close> and \<open>2\<close>), a collection with a
  shared record (\<open>3\<close> is a target of both \<open>1\<close> and \<open>2\<close>), and one whose only record points to the
  absent identifier \<open>9\<close>.
\<close>

definition tree_example :: "RawNode js_map" where
  "tree_example =
     [(''0'', raw_to [] [''1'', ''2'']), (''1'', raw_leaf [step_example]),
      (''2'', raw_leaf [step_example])]"

definition dag_example :: "RawNode js_map" where
  "dag_example =
     [(''0'', raw_to [] [''1'', ''2'']), (''1'', raw_to [step_example] [''3'']),
      (''2'', raw_to [step_example] [''3'']), (''3'', raw_leaf [step_example, step_example])]"

definition dangling_example :: "RawNode js_map" where
  "dangling_example = [(''0'', raw_to [] [''9''])]"

text \<open>
  The graph of children links of a tree, and the list of all action targets of a collection
  (with repetitions). \<open>cyclic_example\<close> is a collection whose two records point at each other.
\<close>

definition child_links :: "OptimizedTree \<Rightarrow> (string \<times> string) set" where
  "child_links t = {(p, c). \<exists>m. (p, m) \<in> set (nodes t) \<and> c \<in> set (children m)}"

definition all_targets :: "RawNode js_map \<Rightarrow> string list" where
  "all_targets flat = concat (map (\<lambda>e. action_targets (snd e)) flat)"

definition cyclic_example :: "RawNode js_map" where
  "cyclic_example = [(''0'', raw_to [] [''1'']), (''1'', raw_to [step_example] [''0''])]"

text \<open>Identifier, parent and children of every node of a generated tree, for inspection.\<close>

definition links_of :: "gen_error + OptimizedTree \<Rightarrow> (string \<times> string option \<times> string list) list" where
  "links_of res =
     (case res of
        Inl e \<Rightarrow> []
      | Inr t \<Rightarrow> map (\<lambda>e. (fst e, parentId (snd e), children (snd e))) (nodes t))"

section \<open>TreeNavigator (src/unnamed/part_000)\<close>

record BreadcrumbItem =
  bc_nodeId :: string
  bc_label :: string
  bc_player :: int
  bc_action :: string

record NavigationAction =
  na_label :: string
  na_targetNode :: string
  na_type :: string
  na_amount :: int
  na_isAllIn :: bool

record NavigationPath =
  currentNode :: string
  breadcrumbs :: "BreadcrumbItem list"
  availableActions :: "NavigationAction list"

text \<open>The constructor fills \<open>nodeCache\<close>, a \<open>Map\<close>, from \<open>Object.entries(tree.nodes)\<close>.\<close>

definition buildCache :: "OptimizedTree \<Rightarrow> TreeNode js_map" where
  "buildCache tree = foldl (\<lambda>cache e. map_set cache (fst e) (snd e)) [] (nodes tree)"

definition isAllInAction :: "int \<Rightarrow> int \<Rightarrow> bool" where
  "isAllInAction amount p = False"

text \<open>
  The \<open>while\<close> loop of \<open>buildBreadcrumbs\<close>, entered with a defined \<open>currentNode\<close>. It need not
  terminate on a tree whose parent links form a cycle, so it is a partial function: \<open>None\<close> is
  the loop that never ends, \<open>Some (currentNode, breadcrumbs)\<close> the state at its exit.
\<close>

partial_function (option) walk_up ::
    "TreeNode js_map \<Rightarrow> TreeNode \<Rightarrow> BreadcrumbItem list \<Rightarrow> (TreeNode \<times> BreadcrumbItem list) option"
where
  "walk_up cache cur crumbs =
     (if truthy (parentId cur)
      then (case map_get cache (the (parentId cur)) of
              None \<Rightarrow> Some (cur, crumbs)
            | Some parentNode \<Rightarrow>
                walk_up cache parentNode
                  (case find (\<lambda>action. act_node action = Some (node_id cur)) (actions parentNode) of
                     Some actionToChild \<Rightarrow>
                       \<lparr> bc_nodeId = the (parentId cur),
                         bc_label = formatActionLabel (act_type actionToChild) (act_amount actionToChild),
                         bc_player = player parentNode,
                         bc_action = act_type actionToChild \<rparr> # crumbs
                   | None \<Rightarrow> crumbs))
      else Some (cur, crumbs))"

declare walk_up.simps [code]

definition buildBreadcrumbs :: "TreeNode js_map \<Rightarrow> string \<Rightarrow> BreadcrumbItem list option" where
  "buildBreadcrumbs cache nodeId =
     (case map_get cache nodeId of
        None \<Rightarrow> Some []
      | Some node \<Rightarrow>
          (case walk_up cache node [] of
             None \<Rightarrow> None
           | Some (cur, crumbs) \<Rightarrow>
               Some (if \<not> truthy (parentId cur)
                     then \<lparr> bc_nodeId = node_id cur, bc_label = ''Start'', bc_player = player cur,
                            bc_action = ''ROOT'' \<rparr> # crumbs
                     else crumbs)))"

definition getAvailableActions :: "TreeNode js_map \<Rightarrow> string \<Rightarrow> NavigationAction list" where
  "getAvailableActions cache nodeId =
     (case map_get cache nodeId of
        None \<Rightarrow> []
      | Some node \<Rightarrow>
          map (\<lambda>action. \<lparr> na_label = formatActionLabel (act_type action) (act_amount action),
                          na_targetNode = the (act_node action),
                          na_type = act_type action,
                          na_amount = act_amount action,
                          na_isAllIn = isAllInAction (act_amount action) (player node) \<rparr>)
              (filter (\<lambda>action. truthy (act_node action)) (actions node)))"

text \<open>
  \<open>getNavigationPath\<close>: the outer \<open>option\<close> is termination (of the breadcrumb loop), the inner
  one is the result \<open>NavigationPath | null\<close>.
\<close>

definition getNavigationPath :: "OptimizedTree \<Rightarrow> string \<Rightarrow> NavigationPath option option" where
  "getNavigationPath tree nodeId =
     (let cache = buildCache tree
      in case map_get cache nodeId of
           None \<Rightarrow> Some None
         | Some node \<Rightarrow>
             (case buildBreadcrumbs cache nodeId of
                None \<Rightarrow> None
              | Some crumbs \<Rightarrow>
                  Some (Some \<lparr> currentNode = nodeId, breadcrumbs = crumbs,
                               availableActions = getAvailableActions cache nodeId \<rparr>)))"

record TreeStatistics =
  stats_totalNodes :: nat
  stats_terminalNodes :: nat
  stats_maxDepth :: js_number
  stats_avgBranchingFactor :: js_number
  stats_maxBranchingFactor :: js_number
  stats_nodesWithHandData :: nat

definition getTreeStats :: "OptimizedTree \<Rightarrow> TreeStatistics" where
  "getTreeStats tree =
     (let ns = map snd (buildCache tree);
          branchingFactors = map (\<lambda>n. int (length (children n))) (filter (\<lambda>n. \<not> isTerminal n) ns)
      in \<lparr> stats_totalNodes = length ns,
           stats_terminalNodes = length (filter (\<lambda>n. isTerminal n) ns),
           stats_maxDepth = math_max (map (\<lambda>n. depth n) ns),
           stats_avgBranchingFactor =
             js_quotient (foldl (\<lambda>a b. a + b) 0 branchingFactors) (int (length branchingFactors)),
           stats_maxBranchingFactor = math_max branchingFactors,
           stats_nodesWithHandData = length (filter (\<lambda>n. hasHandData n) ns) \<rparr>)"

section \<open>TreeOptimizer.calculateMetrics (src/utils/tree-optimizer.ts)\<close>

text \<open>
  The branching-factor part of \<open>calculateMetrics\<close>. (Its other fields, the balance score and
  the memory footprint, are computed from a square root and from the JSON text of the tree.)
\<close>

record BranchingMetrics =
  metrics_avgBranchingFactor :: js_number
  metrics_maxBranchingFactor :: js_number

definition calculateMetrics :: "OptimizedTree \<Rightarrow> BranchingMetrics" where
  "calculateMetrics tree =
     (let ns = map snd (nodes tree);
          nonTerminalNodes = filter (\<lambda>n. \<not> isTerminal n) ns;
          branchingFactors = map (\<lambda>n. int (length (children n))) nonTerminalNodes
      in \<lparr> metrics_avgBranchingFactor =
             (if length branchingFactors > 0
              then js_quotient (foldl (\<lambda>a b. a + b) 0 branchingFactors) (int (length branchingFactors))
              else Num 0),
           metrics_maxBranchingFactor =
             (if length branchingFactors > 0 then math_max branchingFactors else Num 0) \<rparr>)"

section \<open>TreeUtils.findShortestPath (src/unnamed/part_000)\<close>

datatype js_error = TypeError

text \<open>
  The \<open>while\<close> loop over the queue of \<open>{nodeId, path}\<close> entries with the \<open>visited\<close> set.
  \<open>tree.nodes[nodeId]\<close> is a property lookup on the plain object: for an identifier that is
  no own key but names a member of \<open>Object.prototype\<close> it is truthy, its \<open>children\<close> is
  \<open>undefined\<close>, and \<open>node.children.forEach\<close> throws a \<open>TypeError\<close>.
\<close>

function bfs_loop ::
    "OptimizedTree \<Rightarrow> string \<Rightarrow> (string \<times> string list) list \<Rightarrow> string set \<Rightarrow>
     js_error + string list option"
where
  "bfs_loop tree toNodeId [] visited = Inr None"
| "bfs_loop tree toNodeId ((nodeId, pth) # queue) visited =
     (if nodeId = toNodeId then Inr (Some pth)
      else if nodeId \<in> visited then bfs_loop tree toNodeId queue visited
      else (case object_get (nodes tree) nodeId of
              Undefined \<Rightarrow> bfs_loop tree toNodeId queue (insert nodeId visited)
            | Inherited \<Rightarrow> Inl TypeError
            | Own node \<Rightarrow>
                bfs_loop tree toNodeId
                  (queue @ map (\<lambda>childId. (childId, pth @ [childId]))
                             (filter (\<lambda>childId. childId \<notin> insert nodeId visited) (children node)))
                  (insert nodeId visited)))"
  by pat_completeness auto
termination
proof (relation
    "(\<lambda>x. case x of (tree, toNodeId, queue, visited) \<Rightarrow> card (fst ` set (nodes tree) - visited))
     <*mlex*>
     measure (\<lambda>x. case x of (tree, toNodeId, queue, visited) \<Rightarrow> length queue)",
    goal_cases)
  case 1
  show ?case by (simp add: wf_mlex)
next
  case (2 tree toNodeId nodeId pth queue visited)
  show ?case by (rule mlex_leq) simp_all
next
  case (3 tree toNodeId nodeId pth queue visited node)
  have "nodeId \<in> fst ` set (nodes tree)"
    using 3(3) by (auto simp: object_get_def split: option.splits if_splits dest: map_of_SomeD
        intro: rev_image_eqI)
  then have "card (fst ` set (nodes tree) - insert nodeId visited)
               < card (fst ` set (nodes tree) - visited)"
    using 3(2) by (intro psubset_card_mono) auto
  then show ?case by (simp add: mlex_less)
next
  case (4 tree toNodeId nodeId pth queue visited)
  have "fst ` set (nodes tree) - insert nodeId visited \<subseteq> fst ` set (nodes tree) - visited"
    by blast
  then have "card (fst ` set (nodes tree) - insert nodeId visited)
               \<le> card (fst ` set (nodes tree) - visited)"
    by (intro card_mono) auto
  then show ?case by (intro mlex_leq) simp_all
qed

declare bfs_loop.simps [simp del]

definition findShortestPath :: "OptimizedTree \<Rightarrow> string \<Rightarrow> string \<Rightarrow> js_error + string list option" where
  "findShortestPath tree fromNodeId toNodeId =
     bfs_loop tree toNodeId [(fromNodeId, [fromNodeId])] {}"

text \<open>
  A path of children links: a non-empty list of identifiers in which every element but the
  first is in the children list of the node named by its predecessor.
\<close>

fun child_path :: "OptimizedTree \<Rightarrow> string list \<Rightarrow> bool" where
  "child_path tree [] = False"
| "child_path tree [x] = True"
| "child_path tree (x # y # zs) =
     ((case map_of (nodes tree) x of None \<Rightarrow> False | Some node \<Rightarrow> y \<in> set (children node)) \<and>
      child_path tree (y # zs))"

text \<open>
  The tree generated from \<open>tree_example\<close>, the tree generated from \<open>dangling_example\<close>, and a
  tree of one terminal node.
\<close>

definition built_example :: OptimizedTree where
  "built_example = projr (generateTree None ''now'' tree_example)"

definition built_dangling :: OptimizedTree where
  "built_dangling = projr (generateTree None ''now'' dangling_example)"

definition single_node_tree :: OptimizedTree where
  "single_node_tree = projr (generateTree None ''now'' [(''0'', raw_leaf [])])"

text \<open>
  Notions for stating what the search computes: a path of children links from \<open>a\<close> to \<open>b\<close>, a
  shortest such path, and the invariant of the loop. In the queue the lengths of the paths grow
  along the queue by at most one in all (\<open>level_rel\<close> between an earlier and a later entry);
  every visited identifier has a path no longer than any queued one; and a fixed shortest path
  \<open>sp\<close> to the target has a position \<open>i\<close> that is queued with a path of \<open>i + 1\<close> elements and
  not yet visited.
\<close>

definition links_path :: "OptimizedTree \<Rightarrow> string \<Rightarrow> string \<Rightarrow> string list \<Rightarrow> bool" where
  "links_path t a b p = (child_path t p \<and> hd p = a \<and> last p = b)"

definition shortest_links_path :: "OptimizedTree \<Rightarrow> string \<Rightarrow> string \<Rightarrow> string list \<Rightarrow> bool" where
  "shortest_links_path t a b sp =
     (links_path t a b sp \<and> (\<forall>q. links_path t a b q \<longrightarrow> length sp \<le> length q))"

definition level_rel :: "string \<times> string list \<Rightarrow> string \<times> string list \<Rightarrow> bool" where
  "level_rel e e' = (length (snd e) \<le> length (snd e') \<and> length (snd e') \<le> length (snd e) + 1)"

definition bfs_inv ::
    "OptimizedTree \<Rightarrow> string \<Rightarrow> string list \<Rightarrow> (string \<times> string list) list \<Rightarrow> string set \<Rightarrow> bool" where
  "bfs_inv t a sp queue visited =
     ((\<forall>e \<in> set queue. links_path t a (fst e) (snd e)) \<and>
      sorted_wrt level_rel queue \<and>
      (\<forall>x \<in> visited. \<exists>q. links_path t a x q \<and> (\<forall>e \<in> set queue. length q \<le> length (snd e))) \<and>
      (\<exists>i < length sp. sp ! i \<notin> visited \<and>
          (\<exists>e \<in> set queue. fst e = sp ! i \<and> length (snd e) = Suc i)))"

text \<open>
  The identifiers on which \<open>tree.nodes[id]\<close> is either an own property or \<open>undefined\<close>: those
  that are own keys or do not name a member of \<open>Object.prototype\<close>. A tree is free of inherited
  names when every identifier in a children list is of this kind.
\<close>

definition plain_id :: "OptimizedTree \<Rightarrow> string \<Rightarrow> bool" where
  "plain_id t k = (map_of (nodes t) k \<noteq> None \<or> k \<notin> set object_prototype_names)"

definition plain_children :: "OptimizedTree \<Rightarrow> bool" where
  "plain_children t = list_all (\<lambda>e. list_all (plain_id t) (children (snd e))) (nodes t)"

text \<open>
  The branching factors of a tree: the children counts of its non-terminal nodes, in the order
  of its nodes. \<open>built_branching\<close> is the tree generated from a collection with three
  non-terminal records that have four children in all.
\<close>

definition branching_factors :: "OptimizedTree \<Rightarrow> int list" where
  "branching_factors t =
     map (\<lambda>n. int (length (children n))) (filter (\<lambda>n. \<not> isTerminal n) (map snd (nodes t)))"

definition branching_example :: "RawNode js_map" where
  "branching_example =
     [(''0'', raw_to [] [''1'', ''2'']), (''1'', raw_to [step_example] [''3'']),
      (''2'', raw_to [step_example] [''4'']), (''3'', raw_leaf [step_example, step_example]),
      (''4'', raw_leaf [step_example, step_example])]"

definition built_branching :: OptimizedTree where
  "built_branching = projr (generateTree None ''now'' branching_example)"

section \<open>TreeGenerator on a bounded call stack\<close>

text \<open>
  The recursion of \<open>buildTreeStructure\<close> has no depth bound: every level of the tree is one
  more nested call, and a call for which the stack has no room throws a \<open>RangeError\<close> that
  nothing in the class catches. \<open>frames\<close> is the number of nested calls of
  \<open>buildTreeStructure\<close> the stack still has room for; the bodies are those of
  \<open>buildTreeStructure\<close> and \<open>forEach_child\<close>, with the error passed on.
\<close>

fun buildTreeStructure_stack ::
    "nat \<Rightarrow> RawNode js_map \<Rightarrow> string \<Rightarrow> string option \<Rightarrow> int \<Rightarrow> TreeNode js_map \<Rightarrow>
     gen_error + TreeNode js_map"
  and forEach_child_stack ::
    "nat \<Rightarrow> RawNode js_map \<Rightarrow> string list \<Rightarrow> string \<Rightarrow> int \<Rightarrow> TreeNode js_map \<Rightarrow>
     gen_error + TreeNode js_map"
where
  "buildTreeStructure_stack 0 flat nodeId pid d processedNodes = Inl RangeError"
| "buildTreeStructure_stack (Suc frames) flat nodeId pid d processedNodes =
     (case map_get flat nodeId of
        None \<Rightarrow> Inr processedNodes
      | Some rawNode \<Rightarrow>
          if map_has processedNodes nodeId then Inr processedNodes
          else let treeNode = make_node nodeId rawNode pid d
               in forEach_child_stack frames flat (children treeNode) nodeId (d + 1)
                    (map_set processedNodes nodeId treeNode))"
| "forEach_child_stack frames flat [] nodeId d processedNodes = Inr processedNodes"
| "forEach_child_stack frames flat (childId # rest) nodeId d processedNodes =
     (case buildTreeStructure_stack frames flat childId (Some nodeId) d processedNodes of
        Inl e \<Rightarrow> Inl e
      | Inr processedNodes' \<Rightarrow> forEach_child_stack frames flat rest nodeId d processedNodes')"

definition generateTree_stack ::
    "nat \<Rightarrow> nat option \<Rightarrow> string \<Rightarrow> RawNode js_map \<Rightarrow> gen_error + OptimizedTree" where
  "generateTree_stack frames stacks now flat =
     (case findRootNode flat of
        Inl e \<Rightarrow> Inl e
      | Inr rootId \<Rightarrow>
          (case buildTreeStructure_stack frames flat rootId None 0 [] of
             Inl e \<Rightarrow> Inl e
           | Inr processedNodes \<Rightarrow>
               let terminal = length (filter isTerminal (map snd processedNodes))
               in Inr \<lparr> nodes = fromEntries processedNodes,
                        root = rootId,
                        maxDepth = math_max (map (\<lambda>n. depth n) (map snd processedNodes)),
                        playerCount = settings_playerCount stacks,
                        metadata = \<lparr> totalNodes = length processedNodes,
                                     terminalNodes = terminal,
                                     generatedAt = now,
                                     version = ''1.0.0'' \<rparr> \<rparr>))"

text \<open>A chain of three records, \<open>0 \<rightarrow> 1 \<rightarrow> 2\<close>.\<close>

definition chain_example :: "RawNode js_map" where
  "chain_example =
     [(''0'', raw_to [] [''1'']), (''1'', raw_to [step_example] [''2'']),
      (''2'', raw_leaf [step_example, step_example])]"

section \<open>Properties of TreeCache\<close>

lemma in_set_tl: "x \<in> set (tl xs) \<Longrightarrow> x \<in> set xs"
  by (cases xs) auto

lemma map_keys_delete_hd:
  "distinct (map_keys m) \<Longrightarrow> map_keys m = k # ks \<Longrightarrow> map_keys (map_delete m k) = ks"
proof -
  assume d: "distinct (map_keys m)" and m: "map_keys m = k # ks"
  then obtain v m' where m': "m = (k, v) # m'" by (cases m) (auto simp: map_keys_def)
  have "filter (\<lambda>e. fst e \<noteq> k) m' = m'"
    using d m' by (auto simp: filter_id_conv map_keys_def)
  then show ?thesis using m m' by (simp add: map_delete_def map_keys_def)
qed

lemma map_keys_cache_set:
  assumes "distinct (map_keys c)" "k \<notin> set (map_keys c)"
  shows "map_keys (cache_set c k v) =
           (if length c \<ge> maxSize then tl (map_keys c) @ [k] else map_keys c @ [k])"
proof (cases "map_keys c")
  case Nil
  then show ?thesis using assms by (simp add: cache_set_def map_keys_map_set)
next
  case (Cons a as)
  then have "map_keys (map_delete c a) = as" using assms(1) by (simp add: map_keys_delete_hd)
  then show ?thesis using assms Cons by (simp add: cache_set_def map_keys_map_set)
qed

lemma length_map_keys [simp]: "length (map_keys c) = length c"
  by (simp add: map_keys_def)

text \<open>
  With pairwise distinct keys the cache holds the most recently inserted \<open>maxSize\<close> keys, in
  insertion order; \<open>get\<close> calls leave the state alone.
\<close>

lemma cache_run_keys:
  "distinct (map_keys c @ set_keys calls) \<Longrightarrow> length c \<le> maxSize \<Longrightarrow>
   map_keys (cache_run calls c) =
     drop (length (map_keys c @ set_keys calls) - maxSize) (map_keys c @ set_keys calls)"
proof (induction calls arbitrary: c)
  case Nil
  then show ?case by (simp add: cache_run_def)
next
  case (Cons call calls)
  show ?case
  proof (cases call)
    case (GetCall k)
    then show ?thesis using Cons by (simp add: cache_run_def)
  next
    case (SetCall k v)
    let ?c = "cache_set c k v"
    have d: "distinct (map_keys c)" and nk: "k \<notin> set (map_keys c)"
      using Cons.prems(1) SetCall by auto
    have keys: "map_keys ?c = (if length c \<ge> maxSize then tl (map_keys c) @ [k] else map_keys c @ [k])"
      using d nk by (rule map_keys_cache_set)
    have pos: "0 < maxSize" by (simp add: maxSize_def)
    have len: "length ?c \<le> maxSize"
    proof -
      have "length (map_keys ?c) \<le> maxSize"
        unfolding keys using Cons.prems(2) pos by auto
      then show ?thesis by simp
    qed
    have dist: "distinct (map_keys ?c @ set_keys calls)"
      using Cons.prems(1) SetCall keys by (auto simp: distinct_tl dest: in_set_tl)
    have run: "cache_run (call # calls) c = cache_run calls ?c"
      using SetCall by (simp add: cache_run_def)
    show ?thesis
    proof (cases "length c \<ge> maxSize")
      case True
      then have l: "length c = maxSize" using Cons.prems(2) by simp
      then obtain a as where as: "map_keys c = a # as" using pos
        by (cases "map_keys c") (auto simp: map_keys_def)
      have "length (map_keys c) = maxSize" using l by simp
      then have la: "length as = maxSize - 1" unfolding as by simp
      show ?thesis
        unfolding run Cons.IH[OF dist len] using True keys as SetCall la pos l
        by (simp add: Suc_diff_le)
    next
      case False
      show ?thesis
        unfolding run Cons.IH[OF dist len] using False keys SetCall by simp
    qed
  qed
qed

lemma map_has_keys: "map_has m k \<longleftrightarrow> k \<in> set (map_keys m)"
  by (simp add: map_has_def map_keys_def map_of_eq_None_iff)

lemma set_keys_interleaved:
  "set_keys (concat (map (\<lambda>n. [SetCall (f n) (g n), GetCall k]) ns)) = map f ns"
  by (induction ns) auto

lemma set_keys_fifo_example:
  "set_keys fifo_example = map (\<lambda>n. replicate (Suc n) (CHR ''k'')) [0..<101]"
  unfolding fifo_example_def by (rule set_keys_interleaved)

lemma fifo_example_distinct: "distinct (set_keys fifo_example)"
proof -
  have "inj (\<lambda>n. replicate (Suc n) (CHR ''k''))"
    by (rule injI) (metis length_replicate nat.inject)
  then show ?thesis
    unfolding set_keys_fifo_example by (simp add: distinct_map inj_on_def)
qed

lemma fifo_example_length: "length (set_keys fifo_example) = maxSize + 1"
  unfolding set_keys_fifo_example by (simp add: maxSize_def)

lemma fifo_example_hd: "hd (set_keys fifo_example) = ''k''"
  unfolding set_keys_fifo_example by (simp add: hd_map upt_rec)

lemma fifo_example_second: "''kk'' \<in> set (tl (set_keys fifo_example))"
proof -
  have "[0..<101] = 0 # 1 # [2..<101]" by (simp add: upt_rec)
  then show ?thesis unfolding set_keys_fifo_example by simp
qed

text \<open>
  Claim C7. Starting from the empty cache, after any interaction whose \<open>set\<close> calls carry
  101 (\<open>maxSize + 1\<close>) pairwise distinct keys, with \<open>get\<close> calls interleaved at will, the first
  inserted key is gone and the other 100 keys are all present: eviction is first-in-first-out
  and \<open>get\<close> never changes which key is evicted.
\<close>

theorem cache_fifo_eviction:
  assumes "distinct (set_keys calls)" and "length (set_keys calls) = maxSize + 1"
  shows "\<not> cache_has (cache_run calls []) (hd (set_keys calls)) \<and>
         (\<forall>k \<in> set (tl (set_keys calls)). cache_has (cache_run calls []) k)"
proof -
  have "map_keys (cache_run calls ([] :: 'a js_map)) = drop 1 (set_keys calls)"
    using cache_run_keys[of "[]" calls] assms by (simp add: map_keys_def)
  then have k: "map_keys (cache_run calls ([] :: 'a js_map)) = tl (set_keys calls)"
    by (simp add: drop_Suc)
  obtain a as where as: "set_keys calls = a # as" using assms(2) by (cases "set_keys calls") auto
  show ?thesis using k as assms(1) by (auto simp: cache_has_def map_has_keys)
qed

theorem cache_fifo_eviction_witness:
  "distinct (set_keys fifo_example) \<and> length (set_keys fifo_example) = maxSize + 1 \<and>
   \<not> cache_has (cache_run fifo_example []) ''k'' \<and>
   cache_has (cache_run fifo_example []) ''kk''"
  using cache_fifo_eviction[of fifo_example] fifo_example_distinct fifo_example_length
    fifo_example_hd fifo_example_second by auto

section \<open>Properties of the label formatters\<close>

lemmas format_defs =
  formatAmount_def nav_formatAmount_def getActionName_def formatActionLabel_def js_divide_def
  toFixed_def round_half_even_def bit_length.simps show_int_def show_nat.simps digit_def

text \<open>
  Claim C9. \<open>formatAmount(1500) = "2K"\<close> (1500 / 1000 is the double 1.5 and \<open>toFixed(0)\<close>
  takes the larger of the two nearest integers), \<open>formatAmount(2500000) = "2.5M"\<close>,
  \<open>formatAmount(50) = "50"\<close>; \<open>formatActionLabel("R", 0) = "Raise"\<close>,
  \<open>formatActionLabel("R", 200) = "Raise 200"\<close>, \<open>formatActionLabel("F", 0) = "Fold"\<close>. The same
  holds of the generator's copies \<open>formatAmount\<close> and \<open>getActionName\<close>.
\<close>

theorem path_formatter_examples:
  "nav_formatAmount 1500 = ''2K'' \<and> nav_formatAmount 2500000 = ''2.5M'' \<and>
   nav_formatAmount 50 = ''50'' \<and>
   formatActionLabel ''R'' 0 = ''Raise'' \<and> formatActionLabel ''R'' 200 = ''Raise 200'' \<and>
   formatActionLabel ''F'' 0 = ''Fold'' \<and>
   formatAmount 1500 = ''2K'' \<and> formatAmount 2500000 = ''2.5M'' \<and> formatAmount 50 = ''50'' \<and>
   getActionName ''R'' 0 = ''Raise'' \<and> getActionName ''R'' 200 = ''Raise 200'' \<and>
   getActionName ''F'' 0 = ''Fold''"
  by (simp add: format_defs)

section \<open>Properties of findRootNode\<close>

lemma find_first_root_split:
  assumes "flat = pre @ (k, r) # post"
    and "\<forall>e \<in> set pre. raw_sequence (snd e) \<noteq> Some [] \<and> fst e \<noteq> ''0''"
    and "raw_sequence r = Some [] \<or> k = ''0''"
  shows "find_first_root flat = Some k"
  using assms by (induction pre arbitrary: flat) auto

lemma find_first_root_Some:
  "find_first_root flat = Some k \<Longrightarrow> k \<in> set (map_keys flat)"
  by (induction flat rule: find_first_root.induct) (auto simp: map_keys_def split: if_splits)

lemma findRootNode_in_keys:
  assumes "findRootNode flat = Inr k"
  shows "k \<in> set (map_keys flat)"
proof (cases "find_first_root flat")
  case (Some a)
  then show ?thesis using assms find_first_root_Some by (auto simp: findRootNode_def)
next
  case None
  then obtain ks where "filter (\<lambda>nodeId. nodeId \<notin> childNodes flat) (map_keys flat) = k # ks"
    using assms by (auto simp: findRootNode_def split: list.splits)
  then have "k \<in> set (filter (\<lambda>nodeId. nodeId \<notin> childNodes flat) (map_keys flat))"
    by simp
  then show ?thesis by simp
qed

text \<open>
  Claim C2 (amended). The first loop of \<open>findRootNode\<close> tests each record for an empty
  sequence \<^emph>\<open>or\<close> the name \<open>0\<close> in one pass. Whenever the collection holds a record with an empty
  sequence, the result is the first record, in iteration order, that has an empty sequence or
  is named \<open>0\<close>: the conventional name is not a fallback behind the empty sequence.
\<close>

theorem findRootNode_first_match:
  assumes "(k, r) \<in> set flat" and "raw_sequence r = Some []"
  shows "\<exists>k' r' pre post.
           flat = pre @ (k', r') # post \<and>
           (\<forall>e \<in> set pre. raw_sequence (snd e) \<noteq> Some [] \<and> fst e \<noteq> ''0'') \<and>
           (raw_sequence r' = Some [] \<or> k' = ''0'') \<and>
           findRootNode flat = Inr k'"
proof -
  let ?P = "\<lambda>e. raw_sequence (snd e) = Some [] \<or> fst e = ''0''"
  have "\<exists>e \<in> set flat. ?P e" using assms by force
  then obtain pre e post where sp: "flat = pre @ e # post" "?P e" "\<forall>x \<in> set pre. \<not> ?P x"
    using split_list_first_prop[of flat ?P] by blast
  obtain k' r' where e: "e = (k', r')" by (cases e)
  have pre: "\<forall>x \<in> set pre. raw_sequence (snd x) \<noteq> Some [] \<and> fst x \<noteq> ''0''"
    using sp(3) by simp
  have cand: "raw_sequence r' = Some [] \<or> k' = ''0''" using sp(2) e by simp
  have "find_first_root flat = Some k'"
    using find_first_root_split[OF _ pre cand] sp(1) e by simp
  then have "findRootNode flat = Inr k'" by (simp add: findRootNode_def)
  then show ?thesis using sp(1) e pre cand by blast
qed

theorem findRootNode_first_match_witness:
  "(''5'', raw_leaf []) \<in> set root_example \<and> raw_sequence (raw_leaf []) = Some [] \<and>
   (\<exists>k' r' pre post.
      root_example = pre @ (k', r') # post \<and>
      (\<forall>e \<in> set pre. raw_sequence (snd e) \<noteq> Some [] \<and> fst e \<noteq> ''0'') \<and>
      (raw_sequence r' = Some [] \<or> k' = ''0'') \<and>
      findRootNode root_example = Inr k')"
proof -
  have m: "(''5'', raw_leaf []) \<in> set root_example" by (simp add: root_example_def)
  have s: "raw_sequence (raw_leaf []) = Some []" by (simp add: raw_leaf_def)
  show ?thesis using findRootNode_first_match[OF m s] m s by blast
qed

text \<open>
  Counterexample to claim C2 as stated: \<open>root_example\<close> holds the record \<open>5\<close> with an empty
  sequence, yet the result is the record \<open>0\<close>, whose sequence is not empty, because it comes
  first in iteration order.
\<close>

theorem findRootNode_prefers_zero_counterexample:
  "map_get root_example ''5'' = Some (raw_leaf []) \<and> raw_sequence (raw_leaf []) = Some [] \<and>
   findRootNode root_example = Inr ''0'' \<and>
   map_get root_example ''0'' = Some (raw_leaf [step_example]) \<and>
   raw_sequence (raw_leaf [step_example]) \<noteq> Some []"
  by (simp add: root_example_def raw_leaf_def map_get_def findRootNode_def)

section \<open>Properties of buildTreeStructure\<close>

lemma map_set_new: "\<not> map_has m k \<Longrightarrow> map_set m k v = m @ [(k, v)]"
  by (induction m) (auto simp: map_has_def)

lemma map_get_append:
  "map_get (m @ m') k = (case map_get m k of Some v \<Rightarrow> Some v | None \<Rightarrow> map_get m' k)"
  by (simp add: map_get_def map_add_def split: option.splits)

lemma map_get_snoc_new: "\<not> map_has m k \<Longrightarrow> map_get (m @ [(k, v)]) k = Some v"
  by (simp add: map_has_def map_get_def map_add_def)

lemma map_has_get: "map_has m k \<longleftrightarrow> map_get m k \<noteq> None"
  by (simp add: map_has_def map_get_def)

lemma map_get_Some_mem: "map_get m k = Some v \<Longrightarrow> (k, v) \<in> set m"
  by (simp add: map_get_def map_of_SomeD)

lemma map_get_mem_distinct: "distinct (map_keys m) \<Longrightarrow> (k, v) \<in> set m \<Longrightarrow> map_get m k = Some v"
  by (simp add: map_get_def map_keys_def)

lemma map_get_prefix: "prefix m m' \<Longrightarrow> map_get m k = Some v \<Longrightarrow> map_get m' k = Some v"
  by (auto simp: prefix_def map_get_append)

lemma map_has_prefix: "prefix m m' \<Longrightarrow> map_has m k \<Longrightarrow> map_has m' k"
  by (auto simp: map_has_get dest: map_get_prefix)

lemma make_node_sel [simp]:
  "node_id (make_node k r pid d) = k"
  "parentId (make_node k r pid d) = pid"
  "depth (make_node k r pid d) = d"
  "children (make_node k r pid d) = action_targets r"
  "isTerminal (make_node k r pid d) = (action_targets r = [])"
  by (simp_all add: make_node_def Let_def)

lemma build_prefix:
  "prefix processedNodes (buildTreeStructure flat nodeId pid d processedNodes)"
  "prefix processedNodes (forEach_child flat kids nodeId d processedNodes)"
proof (induction flat nodeId pid d processedNodes and flat kids nodeId d processedNodes
    rule: buildTreeStructure_forEach_child.induct)
  case (1 flat nodeId pid d processedNodes)
  show ?case
  proof (cases "map_get flat nodeId")
    case None
    then show ?thesis by (simp add: buildTreeStructure.simps)
  next
    case (Some rawNode)
    show ?thesis
    proof (cases "map_has processedNodes nodeId")
      case True
      then show ?thesis using Some by (simp add: buildTreeStructure.simps)
    next
      case False
      let ?n = "make_node nodeId rawNode pid d"
      have "prefix (map_set processedNodes nodeId ?n)
              (forEach_child flat (children ?n) nodeId (d + 1) (map_set processedNodes nodeId ?n))"
        using 1[OF Some False refl] .
      then have "prefix processedNodes
              (forEach_child flat (children ?n) nodeId (d + 1) (map_set processedNodes nodeId ?n))"
        using False by (auto simp: map_set_new dest: append_prefixD)
      then show ?thesis using Some False by (simp add: buildTreeStructure.simps Let_def)
    qed
  qed
next
  case (2 flat nodeId d processedNodes)
  show ?case by simp
next
  case (3 flat childId rest nodeId d processedNodes)
  then show ?case by (auto intro: prefix_order.trans)
qed

text \<open>The one step that adds a node, unfolded.\<close>

lemma buildTreeStructure_new:
  assumes "map_get flat nodeId = Some rawNode" and "\<not> map_has P nodeId"
  shows "buildTreeStructure flat nodeId pid d P =
           forEach_child flat (action_targets rawNode) nodeId (d + 1)
             (P @ [(nodeId, make_node nodeId rawNode pid d)])"
  using assms by (simp add: buildTreeStructure.simps Let_def map_set_new)

lemma buildTreeStructure_skip:
  assumes "map_get flat nodeId = None \<or> map_has P nodeId"
  shows "buildTreeStructure flat nodeId pid d P = P"
  using assms by (auto simp: buildTreeStructure.simps split: option.splits)

lemma parent_link_prefix: "prefix P P' \<Longrightarrow> parent_link P k pid d \<Longrightarrow> parent_link P' k pid d"
  by (auto simp: parent_link_def split: option.splits dest: map_get_prefix)

lemma wf_processed_snoc:
  assumes wf: "wf_processed flat P" and raw: "map_get flat k = Some rawNode"
    and new: "\<not> map_has P k" and link: "parent_link P k pid d"
  shows "wf_processed flat (P @ [(k, make_node k rawNode pid d)])"
proof -
  let ?P' = "P @ [(k, make_node k rawNode pid d)]"
  have pre: "prefix P ?P'" by simp
  have d: "distinct (map_keys ?P')"
    using wf new by (auto simp: wf_processed_def map_keys_def map_has_def map_of_eq_None_iff)
  have f: "list_all (from_raw flat) ?P'"
    using wf raw by (simp add: wf_processed_def from_raw_def)
  have "list_all (parent_ok P) P" using wf by (simp add: wf_processed_def)
  then have "list_all (parent_ok ?P') P"
    unfolding list_all_iff parent_ok_def using parent_link_prefix[OF pre] by blast
  moreover have "parent_ok ?P' (k, make_node k rawNode pid d)"
    using parent_link_prefix[OF pre link] by (simp add: parent_ok_def)
  ultimately show ?thesis using d f by (simp add: wf_processed_def)
qed

lemma build_wf:
  "wf_processed flat P \<Longrightarrow> parent_link P nodeId pid d \<Longrightarrow>
     wf_processed flat (buildTreeStructure flat nodeId pid d P)"
  "wf_processed flat P \<Longrightarrow> list_all (\<lambda>c. parent_link P c (Some nodeId) d) kids \<Longrightarrow>
     wf_processed flat (forEach_child flat kids nodeId d P)"
proof (induction flat nodeId pid d P and flat kids nodeId d P
    rule: buildTreeStructure_forEach_child.induct)
  case (1 flat nodeId pid d P)
  show ?case
  proof (cases "map_get flat nodeId = None \<or> map_has P nodeId")
    case True
    then show ?thesis using 1(2) by (simp add: buildTreeStructure_skip)
  next
    case False
    then obtain rawNode where raw: "map_get flat nodeId = Some rawNode" and new: "\<not> map_has P nodeId"
      by auto
    let ?n = "make_node nodeId rawNode pid d"
    let ?P' = "P @ [(nodeId, ?n)]"
    have wf': "wf_processed flat ?P'" using wf_processed_snoc[OF 1(2) raw new 1(3)] .
    have get: "map_get ?P' nodeId = Some ?n"
      using new by (simp add: map_get_snoc_new)
    have kids: "list_all (\<lambda>c. parent_link ?P' c (Some nodeId) (d + 1)) (children ?n)"
      using get by (simp add: list_all_iff parent_link_def)
    have "wf_processed flat (forEach_child flat (children ?n) nodeId (d + 1) (map_set P nodeId ?n))"
      using 1(1)[OF raw new refl] wf' kids new by (simp add: map_set_new)
    then show ?thesis using raw new by (simp add: buildTreeStructure_new map_set_new)
  qed
next
  case (2 flat nodeId d P)
  then show ?case by simp
next
  case (3 flat childId rest nodeId d P)
  let ?P1 = "buildTreeStructure flat childId (Some nodeId) d P"
  have wf1: "wf_processed flat ?P1" using 3(1)[OF 3(3)] 3(4) by simp
  have "list_all (\<lambda>c. parent_link ?P1 c (Some nodeId) d) rest"
    using 3(4) parent_link_prefix[OF build_prefix(1)[of P flat childId "Some nodeId" d]]
    by (auto simp: list_all_iff)
  then show ?case using 3(2)[OF wf1] by simp
qed

text \<open>Where the entries of the result come from.\<close>

lemma build_origin:
  "e \<in> set (buildTreeStructure flat nodeId pid d P) \<Longrightarrow>
     e \<in> set P \<or> (fst e = nodeId \<and> parentId (snd e) = pid \<and> depth (snd e) = d) \<or>
     parentId (snd e) \<noteq> None"
  "e \<in> set (forEach_child flat kids nodeId d P) \<Longrightarrow>
     e \<in> set P \<or> parentId (snd e) \<noteq> None"
proof (induction flat nodeId pid d P and flat kids nodeId d P
    rule: buildTreeStructure_forEach_child.induct)
  case (1 flat nodeId pid d P)
  show ?case
  proof (cases "map_get flat nodeId = None \<or> map_has P nodeId")
    case True
    then show ?thesis using 1(2) by (simp add: buildTreeStructure_skip)
  next
    case False
    then obtain rawNode where raw: "map_get flat nodeId = Some rawNode" and new: "\<not> map_has P nodeId"
      by auto
    let ?n = "make_node nodeId rawNode pid d"
    have "e \<in> set (forEach_child flat (children ?n) nodeId (d + 1) (map_set P nodeId ?n))"
      using 1(2) raw new by (simp add: buildTreeStructure_new map_set_new)
    then have "e \<in> set (map_set P nodeId ?n) \<or> parentId (snd e) \<noteq> None"
      using 1(1)[OF raw new refl] by simp
    then show ?thesis using new by (auto simp: map_set_new)
  qed
next
  case (2 flat nodeId d P)
  then show ?case by simp
next
  case (3 flat childId rest nodeId d P)
  then show ?case by fastforce
qed

lemma closed_entry_prefix: "prefix P P' \<Longrightarrow> closed_entry flat P e \<Longrightarrow> closed_entry flat P' e"
  by (auto simp: closed_entry_def list_all_iff dest: map_has_prefix)

lemma build_closed:
  "(map_get flat nodeId = None \<or> map_has (buildTreeStructure flat nodeId pid d P) nodeId) \<and>
   (\<forall>e \<in> set (buildTreeStructure flat nodeId pid d P). e \<in> set P \<or>
        closed_entry flat (buildTreeStructure flat nodeId pid d P) e)"
  "list_all (\<lambda>c. map_get flat c = None \<or> map_has (forEach_child flat kids nodeId d P) c) kids \<and>
   (\<forall>e \<in> set (forEach_child flat kids nodeId d P). e \<in> set P \<or>
        closed_entry flat (forEach_child flat kids nodeId d P) e)"
proof (induction flat nodeId pid d P and flat kids nodeId d P
    rule: buildTreeStructure_forEach_child.induct)
  case (1 flat nodeId pid d P)
  show ?case
  proof (cases "map_get flat nodeId = None \<or> map_has P nodeId")
    case True
    then show ?thesis by (auto simp: buildTreeStructure_skip)
  next
    case False
    then obtain rawNode where raw: "map_get flat nodeId = Some rawNode" and new: "\<not> map_has P nodeId"
      by auto
    let ?n = "make_node nodeId rawNode pid d"
    let ?P' = "P @ [(nodeId, ?n)]"
    let ?R = "forEach_child flat (children ?n) nodeId (d + 1) ?P'"
    have R: "buildTreeStructure flat nodeId pid d P = ?R"
      using raw new by (simp add: buildTreeStructure_new)
    have ih: "list_all (\<lambda>c. map_get flat c = None \<or> map_has ?R c) (children ?n)"
      "\<forall>e \<in> set ?R. e \<in> set ?P' \<or> closed_entry flat ?R e"
      using 1[OF raw new refl] new by (simp_all add: map_set_new)
    have pre: "prefix ?P' ?R" by (rule build_prefix)
    have "map_has ?P' nodeId" using new by (simp add: map_has_get map_get_snoc_new)
    then have has: "map_has ?R nodeId" using map_has_prefix[OF pre] by blast
    have self: "closed_entry flat ?R (nodeId, ?n)"
      using ih(1) by (simp add: closed_entry_def)
    have "\<forall>e \<in> set ?R. e \<in> set P \<or> closed_entry flat ?R e"
      using ih(2) self by auto
    then show ?thesis unfolding R using has by blast
  qed
next
  case (2 flat nodeId d P)
  show ?case by simp
next
  case (3 flat childId rest nodeId d P)
  let ?P1 = "buildTreeStructure flat childId (Some nodeId) d P"
  let ?R = "forEach_child flat rest nodeId d ?P1"
  have pre: "prefix ?P1 ?R" by (rule build_prefix)
  have c: "map_get flat childId = None \<or> map_has ?R childId"
    using 3(1) map_has_prefix[OF pre] by blast
  have rest: "list_all (\<lambda>c. map_get flat c = None \<or> map_has ?R c) rest"
    using 3(2) by blast
  have "\<forall>e \<in> set ?R. e \<in> set P \<or> closed_entry flat ?R e"
  proof
    fix e assume "e \<in> set ?R"
    then consider "e \<in> set ?P1" | "closed_entry flat ?R e" using 3(2) by blast
    then show "e \<in> set P \<or> closed_entry flat ?R e"
    proof cases
      case 1
      then have "e \<in> set P \<or> closed_entry flat ?P1 e" using 3(1) by blast
      then show ?thesis using closed_entry_prefix[OF pre] by blast
    next
      case 2
      then show ?thesis by simp
    qed
  qed
  then show ?case using c rest by simp
qed

section \<open>Properties of generateTree\<close>

lemma set_fromEntries [simp]: "set (fromEntries m) = set m"
  by (auto simp: fromEntries_def)

lemma distinct_fromEntries:
  assumes "distinct (map fst m)"
  shows "distinct (map fst (fromEntries m))"
proof -
  have d: "distinct m" and inj: "inj_on fst (set m)"
    using assms by (simp_all add: distinct_map)
  have "distinct (fromEntries m)"
    using d by (auto simp: fromEntries_def)
  moreover have "inj_on fst (set (fromEntries m))" using inj by simp
  ultimately show ?thesis by (simp add: distinct_map)
qed

lemma map_of_fromEntries:
  assumes "distinct (map fst m)"
  shows "map_of (fromEntries m) = map_of m"
  using assms distinct_fromEntries[OF assms] by (simp add: map_of_inject_set)

text \<open>\<open>generateTree\<close> returns a tree exactly when \<open>findRootNode\<close> returns a root.\<close>

lemma generateTree_Inr:
  assumes "generateTree stacks now flat = Inr t"
  shows "findRootNode flat = Inr (root t) \<and>
         nodes t = fromEntries (buildTreeStructure flat (root t) None 0 [])"
  using assms by (auto simp: generateTree_def Let_def split: sum.splits)

lemma generateTree_total:
  assumes "findRootNode flat = Inr r"
  shows "\<exists>t. generateTree stacks now flat = Inr t"
  using assms by (simp add: generateTree_def Let_def)

lemma wf_processed_empty: "wf_processed flat []"
  by (simp add: wf_processed_def map_keys_def)

text \<open>What is known of the processed nodes of a whole run, started at a record of the collection.\<close>

lemma build_run:
  assumes raw: "map_get flat r = Some rawNode"
  defines "P \<equiv> buildTreeStructure flat r None 0 []"
  shows "wf_processed flat P"
    and "map_get P r = Some (make_node r rawNode None 0)"
    and "\<forall>e \<in> set P. parentId (snd e) = None \<longrightarrow> fst e = r"
    and "\<forall>e \<in> set P. closed_entry flat P e"
proof -
  show wf: "wf_processed flat P"
    unfolding P_def by (rule build_wf(1)[OF wf_processed_empty]) (simp add: parent_link_def)
  have "P = forEach_child flat (action_targets rawNode) r (0 + 1) ([] @ [(r, make_node r rawNode None 0)])"
    unfolding P_def by (rule buildTreeStructure_new[OF raw]) (simp add: map_has_def)
  moreover have "prefix ([] @ [(r, make_node r rawNode None 0)])
      (forEach_child flat (action_targets rawNode) r (0 + 1) ([] @ [(r, make_node r rawNode None 0)]))"
    by (rule build_prefix(2))
  ultimately have "prefix [(r, make_node r rawNode None 0)] P"
    by simp
  then show "map_get P r = Some (make_node r rawNode None 0)"
    by (rule map_get_prefix) (simp add: map_get_def)
  show "\<forall>e \<in> set P. parentId (snd e) = None \<longrightarrow> fst e = r"
  proof (intro ballI impI)
    fix e assume "e \<in> set P" and none: "parentId (snd e) = None"
    then have "e \<in> set (buildTreeStructure flat r None 0 [])" by (simp add: P_def)
    from build_origin(1)[OF this] none show "fst e = r" by simp
  qed
  show "\<forall>e \<in> set P. closed_entry flat P e"
    using build_closed(1)[of flat r None 0 "[]"] unfolding P_def by auto
qed

lemma findRootNode_raw:
  assumes "findRootNode flat = Inr r"
  shows "\<exists>rawNode. map_get flat r = Some rawNode"
proof -
  have "r \<in> fst ` set flat" using findRootNode_in_keys[OF assms] by (simp add: map_keys_def)
  then show ?thesis by (cases "map_of flat r") (auto simp: map_get_def map_of_eq_None_iff)
qed

lemma parent_okD:
  assumes "parent_ok P e" and "parentId (snd e) = Some p"
  shows "\<exists>pn. map_get P p = Some pn \<and> depth (snd e) = depth pn + 1 \<and> fst e \<in> set (children pn)"
  using assms by (auto simp: parent_ok_def parent_link_def split: option.splits)

lemma from_raw_terminal:
  assumes "from_raw flat e"
  shows "isTerminal (snd e) \<longleftrightarrow> children (snd e) = []"
proof -
  obtain rawNode pid d where "snd e = make_node (fst e) rawNode pid d"
    using assms by (auto simp: from_raw_def split: option.splits)
  then show ?thesis by simp
qed

text \<open>
  Claim C4. In every tree that \<open>generateTree\<close> produces (its \<open>nodes\<close> holding one entry per
  identifier) exactly one node has \<open>parentId = null\<close>;
  every other node's parent is a node of the tree and the node's depth is the parent's depth
  plus 1; and \<open>isTerminal\<close> holds exactly when \<open>children\<close> is empty.
\<close>

theorem generateTree_parent_depth_terminal:
  assumes "generateTree stacks now flat = Inr t"
  shows "distinct (map fst (nodes t)) \<and>
         (\<exists>!e. e \<in> set (nodes t) \<and> parentId (snd e) = None) \<and>
         (\<forall>e \<in> set (nodes t). \<forall>p. parentId (snd e) = Some p \<longrightarrow>
            (\<exists>pn. map_of (nodes t) p = Some pn \<and> depth (snd e) = depth pn + 1)) \<and>
         (\<forall>e \<in> set (nodes t). isTerminal (snd e) \<longleftrightarrow> children (snd e) = [])"
proof -
  let ?P = "buildTreeStructure flat (root t) None 0 []"
  have r: "findRootNode flat = Inr (root t)" and n: "nodes t = fromEntries ?P"
    using generateTree_Inr[OF assms] by simp_all
  obtain rawNode where raw: "map_get flat (root t) = Some rawNode"
    using findRootNode_raw[OF r] by blast
  note run = build_run[OF raw]
  have dist: "distinct (map fst ?P)" using run(1) by (simp add: wf_processed_def map_keys_def)
  have lookup: "map_of (nodes t) = map_of ?P" unfolding n by (rule map_of_fromEntries[OF dist])
  let ?e = "(root t, make_node (root t) rawNode None 0)"
  have mem: "?e \<in> set (nodes t)"
    unfolding n using map_get_Some_mem[OF run(2)] by simp
  have uniq: "e = ?e" if "e \<in> set (nodes t)" "parentId (snd e) = None" for e
  proof -
    have k: "fst e = root t" using that run(3) unfolding n by simp
    have "map_of ?P (fst e) = Some (snd e)"
      using that(1) dist unfolding n by simp
    then have "snd e = make_node (root t) rawNode None 0"
      using run(2) k by (simp add: map_get_def)
    then show ?thesis using k by (cases e) simp
  qed
  have one: "\<exists>!e. e \<in> set (nodes t) \<and> parentId (snd e) = None"
  proof (rule ex1I[of _ ?e])
    show "?e \<in> set (nodes t) \<and> parentId (snd ?e) = None" using mem by simp
  next
    fix e assume "e \<in> set (nodes t) \<and> parentId (snd e) = None"
    then show "e = ?e" using uniq by blast
  qed
  have par: "\<exists>pn. map_of (nodes t) p = Some pn \<and> depth (snd e) = depth pn + 1"
    if "e \<in> set (nodes t)" "parentId (snd e) = Some p" for e p
  proof -
    have "parent_ok ?P e" using that(1) run(1) unfolding n by (simp add: wf_processed_def list_all_iff)
    then show ?thesis using parent_okD[OF _ that(2)] lookup by (auto simp: map_get_def)
  qed
  have leaf: "isTerminal (snd e) \<longleftrightarrow> children (snd e) = []" if "e \<in> set (nodes t)" for e
  proof -
    have "from_raw flat e" using that run(1) unfolding n by (simp add: wf_processed_def list_all_iff)
    then show ?thesis by (rule from_raw_terminal)
  qed
  have keys: "distinct (map fst (nodes t))" unfolding n by (rule distinct_fromEntries[OF dist])
  show ?thesis using keys one par leaf by blast
qed

theorem generateTree_parent_depth_terminal_witness:
  "\<exists>t. generateTree None ''now'' tree_example = Inr t \<and>
       distinct (map fst (nodes t)) \<and>
       (\<exists>!e. e \<in> set (nodes t) \<and> parentId (snd e) = None) \<and>
       (\<forall>e \<in> set (nodes t). \<forall>p. parentId (snd e) = Some p \<longrightarrow>
          (\<exists>pn. map_of (nodes t) p = Some pn \<and> depth (snd e) = depth pn + 1)) \<and>
       (\<forall>e \<in> set (nodes t). isTerminal (snd e) \<longleftrightarrow> children (snd e) = [])"
proof -
  have "findRootNode tree_example = Inr ''0''"
    by (simp add: findRootNode_def tree_example_def raw_to_def)
  then obtain t where t: "generateTree None ''now'' tree_example = Inr t"
    using generateTree_total by blast
  show ?thesis using generateTree_parent_depth_terminal[OF t] t by blast
qed

section \<open>Validating a generated tree\<close>

lemma make_node_action_target:
  assumes "a \<in> set (actions (make_node k r pid d))" and "truthy (act_node a)"
  shows "the (act_node a) \<in> set (action_targets r)"
proof -
  obtain ra where ra: "ra \<in> set (raw_actions_or_empty r)"
    and a: "act_node a = (if truthy (ra_node ra) then ra_node ra else None)"
    using assms(1) by (auto simp: make_node_def Let_def)
  have "truthy (ra_node ra)" using assms(2) a by (cases "truthy (ra_node ra)") simp_all
  then show ?thesis using ra a by (force simp: action_targets_def)
qed

lemma targets_resolveD:
  assumes "targets_resolve flat" and "map_get flat k = Some r" and "c \<in> set (action_targets r)"
  shows "map_has flat c"
  using assms map_get_Some_mem[OF assms(2)]
  by (fastforce simp: targets_resolve_def list_all_iff)

lemma concat_map_Nil: "(\<And>x. x \<in> set xs \<Longrightarrow> f x = []) \<Longrightarrow> concat (map f xs) = []"
  by (induction xs) auto

text \<open>
  Claim C5. For a collection in which every action target names a record of the collection,
  \<open>validateTree\<close> of the tree that \<open>generateTree\<close> produces from it reports \<open>isValid = true\<close> and
  no errors. (The references need not form a tree for this.)
\<close>

theorem validateTree_generateTree:
  assumes gen: "generateTree stacks now flat = Inr t" and res: "targets_resolve flat"
  shows "validateTree t = \<lparr> isValid = True, errors = [] \<rparr>"
proof -
  let ?P = "buildTreeStructure flat (root t) None 0 []"
  let ?ids = "set (map fst (nodes t))"
  have r: "findRootNode flat = Inr (root t)" and n: "nodes t = fromEntries ?P"
    using generateTree_Inr[OF gen] by simp_all
  obtain rawRoot where raw: "map_get flat (root t) = Some rawRoot"
    using findRootNode_raw[OF r] by blast
  note run = build_run[OF raw]
  have dist: "distinct (map fst ?P)" using run(1) by (simp add: wf_processed_def map_keys_def)
  have lookup: "map_of (nodes t) = map_of ?P" unfolding n by (rule map_of_fromEntries[OF dist])
  have ids: "k \<in> ?ids" if "map_has ?P k" for k
    using that unfolding n by (simp add: map_has_def map_of_eq_None_iff)
  have root_ok: "root t \<in> ?ids" using run(2) by (intro ids) (simp add: map_has_get)
  have node_ok: "node_errors t ?ids e = []" if e: "e \<in> set (nodes t)" for e
  proof -
    obtain k nd where knd: "e = (k, nd)" by (cases e)
    have eP: "(k, nd) \<in> set ?P" using e knd unfolding n by simp
    obtain rawNode pid d where rawk: "map_get flat k = Some rawNode"
      and nd: "nd = make_node k rawNode pid d"
      using eP run(1) by (fastforce simp: wf_processed_def list_all_iff from_raw_def split: option.splits)
    have kids: "c \<in> ?ids" if "c \<in> set (action_targets rawNode)" for c
    proof -
      have "map_has flat c" using targets_resolveD[OF res rawk that] .
      moreover have "closed_entry flat ?P (k, nd)" using run(4) eP by blast
      ultimately have "map_has ?P c"
        using that nd by (auto simp: closed_entry_def list_all_iff map_has_get)
      then show ?thesis by (rule ids)
    qed
    have par: "\<exists>pn. map_of (nodes t) p = Some pn \<and> depth nd = depth pn + 1"
      if "parentId nd = Some p" for p
    proof -
      have "parent_ok ?P (k, nd)" using eP run(1) by (simp add: wf_processed_def list_all_iff)
      then show ?thesis using parent_okD[of ?P "(k, nd)" p] that lookup by (auto simp: map_get_def)
    qed
    have c1: "parent_reference_errors ?ids k nd = []"
    proof (cases "parentId nd")
      case None
      then show ?thesis by (simp add: parent_reference_errors_def)
    next
      case (Some p)
      then obtain pn where "map_of (nodes t) p = Some pn" using par by blast
      then have "p \<in> ?ids" by (metis map_of_eq_None_iff option.distinct(1) set_map)
      then show ?thesis using Some by (simp add: parent_reference_errors_def)
    qed
    have c2: "child_reference_errors ?ids k nd = []"
      unfolding child_reference_errors_def using kids nd by (intro concat_map_Nil) simp
    have c3: "action_reference_errors ?ids k nd = []"
      unfolding action_reference_errors_def
    proof (rule concat_map_Nil)
      fix x assume x: "x \<in> set (zip (actions nd) [0 ..< length (actions nd)])"
      obtain a i where ai: "x = (a, i)" by (cases x)
      have "a \<in> set (actions nd)" using x ai by (auto dest: set_zip_leftD)
      then have "truthy (act_node a) \<Longrightarrow> the (act_node a) \<in> ?ids"
        using make_node_action_target[of a k rawNode pid d] kids nd by blast
      then show "(case x of (action, index) \<Rightarrow>
                  if truthy (act_node action) \<and> the (act_node action) \<notin> ?ids
                  then [''Node '' @ k @ '' action '' @ show_nat index @
                        '' references non-existent node '' @ the (act_node action)]
                  else []) = []"
        using ai by auto
    qed
    have c4: "depth_errors t k nd = []"
    proof (cases "parentId nd")
      case None
      then show ?thesis by (simp add: depth_errors_def)
    next
      case (Some p)
      then obtain pn where "map_of (nodes t) p = Some pn" "depth nd = depth pn + 1"
        using par by blast
      then show ?thesis using Some by (simp add: depth_errors_def object_get_def)
    qed
    show ?thesis unfolding knd using c1 c2 c3 c4 by (simp add: node_errors_def)
  qed
  have "concat (map (node_errors t ?ids) (nodes t)) = []"
    using node_ok by (rule concat_map_Nil)
  then show ?thesis using root_ok by (simp add: validateTree_def Let_def)
qed

theorem validateTree_generateTree_witness:
  "\<exists>t. generateTree None ''now'' tree_example = Inr t \<and> targets_resolve tree_example \<and>
       validateTree t = \<lparr> isValid = True, errors = [] \<rparr>"
proof -
  have "findRootNode tree_example = Inr ''0''"
    by (simp add: findRootNode_def tree_example_def raw_to_def)
  then obtain t where t: "generateTree None ''now'' tree_example = Inr t"
    using generateTree_total by blast
  have res: "targets_resolve tree_example"
    by (simp add: targets_resolve_def tree_example_def raw_to_def raw_leaf_def action_targets_def
        raw_actions_or_empty_def map_has_def)
  show ?thesis using validateTree_generateTree[OF t res] t res by blast
qed

section \<open>Children links of a generated tree\<close>

lemma distinct_concat_map_same:
  assumes "distinct (concat (map f xs))" and "a \<in> set xs" and "b \<in> set xs"
    and "c \<in> set (f a)" and "c \<in> set (f b)"
  shows "a = b"
  using assms by (induction xs) auto

lemma from_raw_children:
  assumes "from_raw flat e"
  shows "\<exists>rawNode. (fst e, rawNode) \<in> set flat \<and> children (snd e) = action_targets rawNode"
proof -
  obtain rawNode pid d where "map_get flat (fst e) = Some rawNode"
    and "snd e = make_node (fst e) rawNode pid d"
    using assms by (auto simp: from_raw_def split: option.splits)
  then show ?thesis using map_get_Some_mem by fastforce
qed

text \<open>
  Claim C3 (amended). In every tree that \<open>generateTree\<close> produces, each non-root node's
  identifier appears in the children list of the node named by its \<open>parentId\<close>. If moreover no
  identifier is the target of two actions of the collection and the root is not a target (the
  references form a tree), then that parent is the only node whose children list holds the
  identifier, and the graph of children links is acyclic.
\<close>

theorem generateTree_child_links:
  assumes gen: "generateTree stacks now flat = Inr t"
  shows "(\<forall>e \<in> set (nodes t). \<forall>p. parentId (snd e) = Some p \<longrightarrow>
            (\<exists>pn. map_of (nodes t) p = Some pn \<and> fst e \<in> set (children pn))) \<and>
         (distinct (all_targets flat) \<and> root t \<notin> set (all_targets flat) \<longrightarrow>
            (\<forall>e \<in> set (nodes t). \<forall>pe \<in> set (nodes t).
               fst e \<in> set (children (snd pe)) \<longrightarrow> parentId (snd e) = Some (fst pe)) \<and>
            acyclic (child_links t))"
proof -
  let ?P = "buildTreeStructure flat (root t) None 0 []"
  have r: "findRootNode flat = Inr (root t)" and n: "nodes t = fromEntries ?P"
    using generateTree_Inr[OF gen] by simp_all
  obtain rawRoot where raw: "map_get flat (root t) = Some rawRoot"
    using findRootNode_raw[OF r] by blast
  note run = build_run[OF raw]
  have dist: "distinct (map fst ?P)" using run(1) by (simp add: wf_processed_def map_keys_def)
  have lookup: "map_of (nodes t) = map_of ?P" unfolding n by (rule map_of_fromEntries[OF dist])
  have mem_lookup: "map_of (nodes t) (fst e) = Some (snd e)" if "e \<in> set (nodes t)" for e
    using that dist lookup unfolding n by simp
  have par: "\<exists>pn. map_of (nodes t) p = Some pn \<and> depth (snd e) = depth pn + 1 \<and>
                 fst e \<in> set (children pn)"
    if "e \<in> set (nodes t)" "parentId (snd e) = Some p" for e p
  proof -
    have "parent_ok ?P e" using that(1) run(1) unfolding n by (simp add: wf_processed_def list_all_iff)
    then show ?thesis using parent_okD[OF _ that(2)] lookup by (auto simp: map_get_def)
  qed
  have kids: "\<exists>rawNode. (fst e, rawNode) \<in> set flat \<and> children (snd e) = action_targets rawNode"
    if "e \<in> set (nodes t)" for e
  proof -
    have "from_raw flat e" using that run(1) unfolding n by (simp add: wf_processed_def list_all_iff)
    then show ?thesis by (rule from_raw_children)
  qed
  have first: "\<forall>e \<in> set (nodes t). \<forall>p. parentId (snd e) = Some p \<longrightarrow>
            (\<exists>pn. map_of (nodes t) p = Some pn \<and> fst e \<in> set (children pn))"
    using par by blast
  have second: "(\<forall>e \<in> set (nodes t). \<forall>pe \<in> set (nodes t).
               fst e \<in> set (children (snd pe)) \<longrightarrow> parentId (snd e) = Some (fst pe)) \<and>
            acyclic (child_links t)"
    if single: "distinct (all_targets flat)" and noroot: "root t \<notin> set (all_targets flat)"
  proof -
    have target: "c \<in> set (all_targets flat)" if "pe \<in> set (nodes t)" "c \<in> set (children (snd pe))" for pe c
      using kids[OF that(1)] that(2) by (force simp: all_targets_def)
    have only: "parentId (snd e) = Some (fst pe)"
      if e: "e \<in> set (nodes t)" and pe: "pe \<in> set (nodes t)" and c: "fst e \<in> set (children (snd pe))"
      for e pe
    proof -
      have "fst e \<noteq> root t" using target[OF pe c] noroot by auto
      then have "parentId (snd e) \<noteq> None" using run(3) e unfolding n by auto
      then obtain p where p: "parentId (snd e) = Some p" by auto
      then obtain pn where pn: "map_of (nodes t) p = Some pn" "fst e \<in> set (children pn)"
        using par[OF e] by blast
      have pmem: "(p, pn) \<in> set (nodes t)" using pn(1) by (rule map_of_SomeD)
      obtain rp where rp: "(p, rp) \<in> set flat" "children pn = action_targets rp"
        using kids[OF pmem] by auto
      obtain rq where rq: "(fst pe, rq) \<in> set flat" "children (snd pe) = action_targets rq"
        using kids[OF pe] by auto
      have "(p, rp) = (fst pe, rq)"
        using distinct_concat_map_same[of "\<lambda>e. action_targets (snd e)" flat "(p, rp)" "(fst pe, rq)" "fst e"]
          single rp rq pn(2) c by (simp add: all_targets_def)
      then show ?thesis using p by simp
    qed
    define top where "top = Max (insert 0 ((\<lambda>e. depth (snd e)) ` set (nodes t))) + 1"
    define rank where "rank x = (case map_of (nodes t) x of Some nd \<Rightarrow> - depth nd | None \<Rightarrow> - top)" for x
    have below: "depth (snd e) < top" if "e \<in> set (nodes t)" for e
    proof -
      have "depth (snd e) \<le> Max (insert 0 ((\<lambda>e. depth (snd e)) ` set (nodes t)))"
        using that by (intro Max_ge) auto
      then show ?thesis by (simp add: top_def)
    qed
    have "rank c < rank p" if pc: "(p, c) \<in> child_links t" for p c
    proof -
      obtain m where m: "(p, m) \<in> set (nodes t)" "c \<in> set (children m)"
        using pc by (auto simp: child_links_def)
      have rp: "rank p = - depth m" using mem_lookup[OF m(1)] by (simp add: rank_def)
      show ?thesis
      proof (cases "map_of (nodes t) c")
        case None
        then show ?thesis using rp below[OF m(1)] by (simp add: rank_def)
      next
        case (Some nd)
        then have cmem: "(c, nd) \<in> set (nodes t)" by (rule map_of_SomeD)
        have "parentId nd = Some p" using only[OF cmem m(1)] m(2) by simp
        then obtain pn where "map_of (nodes t) p = Some pn" "depth nd = depth pn + 1"
          using par[OF cmem] by auto
        then have "depth nd = depth m + 1" using mem_lookup[OF m(1)] by simp
        then show ?thesis using rp Some by (simp add: rank_def)
      qed
    qed
    then have "acyclic (child_links t)" by (rule acyclicI_order)
    then show ?thesis using only by blast
  qed
  show ?thesis using first second by blast
qed

theorem generateTree_child_links_witness:
  "\<exists>t. generateTree None ''now'' tree_example = Inr t \<and>
       distinct (all_targets tree_example) \<and> root t \<notin> set (all_targets tree_example) \<and>
       (\<forall>e \<in> set (nodes t). \<forall>p. parentId (snd e) = Some p \<longrightarrow>
            (\<exists>pn. map_of (nodes t) p = Some pn \<and> fst e \<in> set (children pn))) \<and>
       (\<forall>e \<in> set (nodes t). \<forall>pe \<in> set (nodes t).
               fst e \<in> set (children (snd pe)) \<longrightarrow> parentId (snd e) = Some (fst pe)) \<and>
       acyclic (child_links t)"
proof -
  have root0: "findRootNode tree_example = Inr ''0''"
    by (simp add: findRootNode_def tree_example_def raw_to_def)
  then obtain t where t: "generateTree None ''now'' tree_example = Inr t"
    using generateTree_total by blast
  have targets: "all_targets tree_example = [''1'', ''2'']"
    by (simp add: all_targets_def tree_example_def raw_to_def raw_leaf_def action_targets_def
        raw_actions_or_empty_def)
  have "root t = ''0''" using generateTree_Inr[OF t] root0 by simp
  then have h: "distinct (all_targets tree_example) \<and> root t \<notin> set (all_targets tree_example)"
    using targets by simp
  show ?thesis using generateTree_child_links[OF t] t h by blast
qed

text \<open>
  Counterexamples to claim C3 as stated. In the tree generated from \<open>dag_example\<close> the
  identifier \<open>3\<close> is in the children lists of both \<open>1\<close> and \<open>2\<close> (its \<open>parentId\<close> is \<open>1\<close>). In the
  tree generated from \<open>cyclic_example\<close> the children links \<open>0 \<rightarrow> 1 \<rightarrow> 0\<close> form a cycle, and the
  root \<open>0\<close> is in the children list of \<open>1\<close>.
\<close>

theorem shared_and_cyclic_children_counterexample:
  "links_of (generateTree None ''now'' dag_example) =
     [(''0'', None, [''1'', ''2'']), (''1'', Some ''0'', [''3'']), (''2'', Some ''0'', [''3'']),
      (''3'', Some ''1'', [])] \<and>
   links_of (generateTree None ''now'' cyclic_example) =
     [(''0'', None, [''1'']), (''1'', Some ''0'', [''0''])]"
  by code_simp

section \<open>Action targets that are absent from the collection\<close>

lemma build_keys_in_flat:
  assumes "wf_processed flat P" and "map_get flat c = None"
  shows "map_of P c = None"
proof (rule ccontr)
  assume "map_of P c \<noteq> None"
  then obtain nd where "(c, nd) \<in> set P" by (auto dest: map_of_SomeD)
  then have "from_raw flat (c, nd)" using assms(1) by (simp add: wf_processed_def list_all_iff)
  then show False using assms(2) by (simp add: from_raw_def)
qed

lemma validateTree_missing_child:
  assumes "(k, nd) \<in> set (nodes t)" and "c \<in> set (children nd)" and "c \<notin> fst ` set (nodes t)"
  shows "\<not> isValid (validateTree t)"
proof -
  let ?ids = "set (map fst (nodes t))"
  have "child_reference_errors ?ids k nd \<noteq> []"
    unfolding child_reference_errors_def using assms(2,3) by (auto intro!: bexI[of _ c])
  then have "node_errors t ?ids (k, nd) \<noteq> []"
    by (simp add: node_errors_def)
  then have "concat (map (node_errors t ?ids) (nodes t)) \<noteq> []"
    using assms(1) by (auto intro!: bexI[of _ "(k, nd)"])
  then show ?thesis by (simp add: validateTree_def Let_def)
qed

lemma make_node_children_actions:
  "children (make_node k r pid d) =
     map (\<lambda>a. the (act_node a)) (filter (\<lambda>a. act_node a \<noteq> None) (actions (make_node k r pid d)))"
proof -
  let ?f = "\<lambda>action. \<lparr> act_type = ra_type action, act_amount = or_zero (ra_amount action),
                         act_node = (if truthy (ra_node action) then ra_node action else None) \<rparr>"
  have "map (\<lambda>a. the (act_node a)) (filter (\<lambda>a. act_node a \<noteq> None) (map ?f ras)) =
        map (\<lambda>a. the (ra_node a)) (filter (\<lambda>a. truthy (ra_node a)) ras)" for ras
  proof (induction ras)
    case Nil
    then show ?case by simp
  next
    case (Cons a ras)
    then show ?case by (cases "ra_node a") auto
  qed
  from this[of "raw_actions_or_empty r"] show ?thesis
    by (simp add: make_node_def Let_def action_targets_def)
qed

text \<open>What a returned tree keeps of the action targets, present in the collection or not.\<close>

lemma generateTree_absent_target:
  assumes gen: "generateTree stacks now flat = Inr t"
  shows "(\<forall>e \<in> set (nodes t). \<exists>rawNode. map_get flat (fst e) = Some rawNode \<and>
            children (snd e) = action_targets rawNode \<and>
            children (snd e) =
              map (\<lambda>a. the (act_node a)) (filter (\<lambda>a. act_node a \<noteq> None) (actions (snd e)))) \<and>
         (\<forall>c. map_get flat c = None \<longrightarrow> map_of (nodes t) c = None) \<and>
         (\<forall>e \<in> set (nodes t). \<forall>c \<in> set (children (snd e)).
            map_get flat c = None \<longrightarrow> \<not> isValid (validateTree t))"
proof -
  let ?P = "buildTreeStructure flat (root t) None 0 []"
  have r: "findRootNode flat = Inr (root t)" and n: "nodes t = fromEntries ?P"
    using generateTree_Inr[OF gen] by simp_all
  obtain rawRoot where raw: "map_get flat (root t) = Some rawRoot"
    using findRootNode_raw[OF r] by blast
  note run = build_run[OF raw]
  have dist: "distinct (map fst ?P)" using run(1) by (simp add: wf_processed_def map_keys_def)
  have lookup: "map_of (nodes t) = map_of ?P" unfolding n by (rule map_of_fromEntries[OF dist])
  have a: "\<exists>rawNode. map_get flat (fst e) = Some rawNode \<and>
            children (snd e) = action_targets rawNode \<and>
            children (snd e) =
              map (\<lambda>a. the (act_node a)) (filter (\<lambda>a. act_node a \<noteq> None) (actions (snd e)))"
    if "e \<in> set (nodes t)" for e
  proof -
    have "from_raw flat e" using that run(1) unfolding n by (simp add: wf_processed_def list_all_iff)
    then obtain rawNode pid d where rw: "map_get flat (fst e) = Some rawNode"
      and nd: "snd e = make_node (fst e) rawNode pid d"
      by (auto simp: from_raw_def split: option.splits)
    have "children (snd e) = action_targets rawNode" using nd by simp
    moreover have "children (snd e) =
        map (\<lambda>a. the (act_node a)) (filter (\<lambda>a. act_node a \<noteq> None) (actions (snd e)))"
      unfolding nd by (rule make_node_children_actions)
    ultimately show ?thesis using rw by blast
  qed
  have b: "map_of (nodes t) c = None" if "map_get flat c = None" for c
    using build_keys_in_flat[OF run(1) that] lookup by simp
  have c: "\<not> isValid (validateTree t)"
    if "e \<in> set (nodes t)" "c \<in> set (children (snd e))" "map_get flat c = None" for e c
  proof -
    have "c \<notin> fst ` set (nodes t)" using b[OF that(3)] by (simp add: map_of_eq_None_iff)
    then show ?thesis using validateTree_missing_child[of "fst e" "snd e" t c] that(1,2) by simp
  qed
  show ?thesis using a b c by blast
qed

section \<open>The bounded call stack\<close>

text \<open>Whatever the bounded recursion returns is what the unbounded one computes.\<close>

lemma stack_agrees:
  "buildTreeStructure_stack frames flat nodeId pid d P = Inr P' \<Longrightarrow>
     P' = buildTreeStructure flat nodeId pid d P"
  "forEach_child_stack frames flat kids nodeId d P = Inr P' \<Longrightarrow>
     P' = forEach_child flat kids nodeId d P"
proof (induction frames flat nodeId pid d P and frames flat kids nodeId d P arbitrary: P' and P'
    rule: buildTreeStructure_stack_forEach_child_stack.induct)
  case (1 flat nodeId pid d P)
  then show ?case by simp
next
  case (2 frames flat nodeId pid d P)
  show ?case
  proof (cases "map_get flat nodeId = None \<or> map_has P nodeId")
    case True
    then show ?thesis using 2(2) by (auto simp: buildTreeStructure_skip split: option.splits)
  next
    case False
    then obtain rawNode where raw: "map_get flat nodeId = Some rawNode" and new: "\<not> map_has P nodeId"
      by auto
    let ?n = "make_node nodeId rawNode pid d"
    have "forEach_child_stack frames flat (children ?n) nodeId (d + 1) (map_set P nodeId ?n) = Inr P'"
      using 2(2) raw new by (simp add: Let_def)
    then have "P' = forEach_child flat (children ?n) nodeId (d + 1) (map_set P nodeId ?n)"
      using 2(1)[OF raw new refl] by simp
    then show ?thesis using raw new by (simp add: buildTreeStructure.simps Let_def)
  qed
next
  case (3 frames flat nodeId d P)
  then show ?case by simp
next
  case (4 frames flat childId rest nodeId d P)
  obtain P1 where P1: "buildTreeStructure_stack frames flat childId (Some nodeId) d P = Inr P1"
    and rest: "forEach_child_stack frames flat rest nodeId d P1 = Inr P'"
    using 4(3) by (auto split: sum.splits)
  have "P1 = buildTreeStructure flat childId (Some nodeId) d P" using 4(1)[OF P1] .
  moreover have "P' = forEach_child flat rest nodeId d P1" using 4(2)[OF P1 rest] .
  ultimately show ?case by simp
qed

lemma stack_error:
  "buildTreeStructure_stack frames flat nodeId pid d P = Inl e \<Longrightarrow> e = RangeError"
  "forEach_child_stack frames flat kids nodeId d P = Inl e \<Longrightarrow> e = RangeError"
proof (induction frames flat nodeId pid d P and frames flat kids nodeId d P
    rule: buildTreeStructure_stack_forEach_child_stack.induct)
  case (2 frames flat nodeId pid d P)
  then show ?case by (auto simp: Let_def split: option.splits if_splits)
next
  case (4 frames flat childId rest nodeId d P)
  then show ?case by (auto split: sum.splits)
qed simp_all

text \<open>
  A stack with room for more nested calls than there are unprocessed records is never
  exhausted: every nested call that goes on processes a record that was not processed before.
\<close>

lemma stack_enough:
  "card (set (map_keys flat) - set (map_keys P)) < frames \<Longrightarrow>
     buildTreeStructure_stack frames flat nodeId pid d P = Inr (buildTreeStructure flat nodeId pid d P)"
  "card (set (map_keys flat) - set (map_keys P)) < frames \<Longrightarrow>
     forEach_child_stack frames flat kids nodeId d P = Inr (forEach_child flat kids nodeId d P)"
proof (induction frames flat nodeId pid d P and frames flat kids nodeId d P
    rule: buildTreeStructure_stack_forEach_child_stack.induct)
  case (1 flat nodeId pid d P)
  then show ?case by simp
next
  case (2 frames flat nodeId pid d P)
  show ?case
  proof (cases "map_get flat nodeId = None \<or> map_has P nodeId")
    case True
    then show ?thesis by (auto simp: buildTreeStructure_skip split: option.splits)
  next
    case False
    then obtain rawNode where raw: "map_get flat nodeId = Some rawNode" and new: "\<not> map_has P nodeId"
      by auto
    let ?n = "make_node nodeId rawNode pid d"
    have "nodeId \<in> set (map_keys flat)"
      using raw by (auto simp: map_get_def map_keys_def dest: map_of_SomeD intro: rev_image_eqI)
    moreover have "nodeId \<notin> set (map_keys P)"
      using new by (simp add: map_has_def map_keys_def map_of_eq_None_iff)
    ultimately have
      "card (set (map_keys flat) - set (map_keys (map_set P nodeId ?n)))
         < card (set (map_keys flat) - set (map_keys P))"
      by (intro psubset_card_mono) (auto simp: map_keys_map_set)
    then have "card (set (map_keys flat) - set (map_keys (map_set P nodeId ?n))) < frames"
      using 2(2) by simp
    then have "forEach_child_stack frames flat (children ?n) nodeId (d + 1) (map_set P nodeId ?n) =
                 Inr (forEach_child flat (children ?n) nodeId (d + 1) (map_set P nodeId ?n))"
      using 2(1)[OF raw new refl] by simp
    then show ?thesis using raw new by (simp add: buildTreeStructure.simps Let_def)
  qed
next
  case (3 frames flat nodeId d P)
  then show ?case by simp
next
  case (4 frames flat childId rest nodeId d P)
  let ?P1 = "buildTreeStructure flat childId (Some nodeId) d P"
  have one: "buildTreeStructure_stack frames flat childId (Some nodeId) d P = Inr ?P1"
    using 4(1)[OF 4(3)] .
  have "set (map_keys P) \<subseteq> set (map_keys ?P1)"
    using build_prefix(1)[of P flat childId "Some nodeId" d] by (auto simp: prefix_def map_keys_def)
  then have "card (set (map_keys flat) - set (map_keys ?P1))
               \<le> card (set (map_keys flat) - set (map_keys P))"
    by (intro card_mono) auto
  then have "card (set (map_keys flat) - set (map_keys ?P1)) < frames" using 4(3) by simp
  then have "forEach_child_stack frames flat rest nodeId d ?P1 =
               Inr (forEach_child flat rest nodeId d ?P1)"
    using 4(2)[OF one] by simp
  then show ?case using one by simp
qed

lemma generateTree_stack_Inr:
  assumes "generateTree_stack frames stacks now flat = Inr t"
  shows "generateTree stacks now flat = Inr t"
proof -
  obtain r P where r: "findRootNode flat = Inr r"
    and P: "buildTreeStructure_stack frames flat r None 0 [] = Inr P"
    using assms by (auto simp: generateTree_stack_def split: sum.splits)
  have "P = buildTreeStructure flat r None 0 []" using stack_agrees(1)[OF P] .
  then show ?thesis using assms r P by (simp add: generateTree_stack_def generateTree_def Let_def)
qed

lemma generateTree_stack_enough:
  assumes "length flat < frames"
  shows "generateTree_stack frames stacks now flat = generateTree stacks now flat"
proof (cases "findRootNode flat")
  case (Inl e)
  then show ?thesis by (simp add: generateTree_stack_def generateTree_def)
next
  case (Inr r)
  have "card (set (map_keys flat) - set (map_keys ([] :: TreeNode js_map))) \<le> length flat"
    using card_length[of "map_keys flat"] by (simp add: map_keys_def)
  then have "buildTreeStructure_stack frames flat r None 0 [] = Inr (buildTreeStructure flat r None 0 [])"
    using assms by (intro stack_enough(1)) simp
  then show ?thesis using Inr by (simp add: generateTree_stack_def generateTree_def Let_def)
qed

lemma generateTree_stack_Inl:
  assumes "generateTree_stack frames stacks now flat = Inl e"
  shows "(e = RootNotFound \<and> findRootNode flat = Inl RootNotFound) \<or>
         (e = RangeError \<and> frames \<le> length flat)"
proof (cases "findRootNode flat")
  case (Inl e')
  then have "e' = RootNotFound"
    by (auto simp: findRootNode_def split: option.splits list.splits)
  then show ?thesis using assms Inl by (simp add: generateTree_stack_def)
next
  case (Inr r)
  have big: "frames \<le> length flat"
  proof (rule ccontr)
    assume "\<not> frames \<le> length flat"
    then have "generateTree_stack frames stacks now flat = generateTree stacks now flat"
      by (intro generateTree_stack_enough) simp
    then show False using assms Inr by (simp add: generateTree_def Let_def)
  qed
  obtain e' where "buildTreeStructure_stack frames flat r None 0 [] = Inl e'" "e = e'"
    using assms Inr by (auto simp: generateTree_stack_def Let_def split: sum.splits)
  then have "e = RangeError" using stack_error(1) by blast
  then show ?thesis using big by simp
qed

text \<open>
  On the chain \<open>0 \<rightarrow> 1 \<rightarrow> 2\<close> the recursion nests three calls: a stack with room for two
  throws, a stack with room for three returns the tree.
\<close>

lemma chain_example_stack:
  "generateTree_stack 2 None ''now'' chain_example = Inl RangeError \<and>
   generateTree_stack 3 None ''now'' chain_example = generateTree None ''now'' chain_example"
  by code_simp

text \<open>
  Claim C1 (amended). An action target that is absent from the collection never makes the
  build fail: there is no \<open>DanglingReference\<close> failure. \<open>generateTree\<close> fails only when
  \<open>findRootNode\<close> finds no root, or when the recursion exhausts the call stack, which cannot
  happen while the stack has room for more nested calls than the collection has records.
  Whenever it returns a tree, every node's children list is the full list of its record's
  action targets, present or absent, and is the list of the targets that the node's own
  actions carry; no node is created for an absent identifier; and \<open>validateTree\<close> reports the
  tree as invalid.
\<close>

theorem generateTree_stack_absent_target:
  "(\<forall>t. generateTree_stack frames stacks now flat = Inr t \<longrightarrow>
      (\<forall>e \<in> set (nodes t). \<exists>rawNode. map_get flat (fst e) = Some rawNode \<and>
            children (snd e) = action_targets rawNode \<and>
            children (snd e) =
              map (\<lambda>a. the (act_node a)) (filter (\<lambda>a. act_node a \<noteq> None) (actions (snd e)))) \<and>
      (\<forall>c. map_get flat c = None \<longrightarrow> map_of (nodes t) c = None) \<and>
      (\<forall>e \<in> set (nodes t). \<forall>c \<in> set (children (snd e)).
            map_get flat c = None \<longrightarrow> \<not> isValid (validateTree t))) \<and>
   (\<forall>r. findRootNode flat = Inr r \<and> length flat < frames \<longrightarrow>
      (\<exists>t. generateTree_stack frames stacks now flat = Inr t)) \<and>
   (\<forall>e. generateTree_stack frames stacks now flat = Inl e \<longrightarrow>
      (e = RootNotFound \<and> findRootNode flat = Inl RootNotFound) \<or>
      (e = RangeError \<and> frames \<le> length flat))"
proof -
  have A: "(\<forall>e \<in> set (nodes t). \<exists>rawNode. map_get flat (fst e) = Some rawNode \<and>
            children (snd e) = action_targets rawNode \<and>
            children (snd e) =
              map (\<lambda>a. the (act_node a)) (filter (\<lambda>a. act_node a \<noteq> None) (actions (snd e)))) \<and>
      (\<forall>c. map_get flat c = None \<longrightarrow> map_of (nodes t) c = None) \<and>
      (\<forall>e \<in> set (nodes t). \<forall>c \<in> set (children (snd e)).
            map_get flat c = None \<longrightarrow> \<not> isValid (validateTree t))"
    if "generateTree_stack frames stacks now flat = Inr t" for t
    using generateTree_absent_target[OF generateTree_stack_Inr[OF that]] .
  have B: "\<exists>t. generateTree_stack frames stacks now flat = Inr t"
    if a: "findRootNode flat = Inr r \<and> length flat < frames" for r
  proof -
    have "generateTree_stack frames stacks now flat = generateTree stacks now flat"
      using a by (intro generateTree_stack_enough) simp
    then show ?thesis using generateTree_total[of flat r stacks now] a by simp
  qed
  have C: "(e = RootNotFound \<and> findRootNode flat = Inl RootNotFound) \<or>
           (e = RangeError \<and> frames \<le> length flat)"
    if "generateTree_stack frames stacks now flat = Inl e" for e
    using that by (rule generateTree_stack_Inl)
  show ?thesis using A B C by blast
qed

theorem generateTree_stack_absent_target_witness:
  "findRootNode dangling_example = Inr ''0'' \<and> length dangling_example < 2 \<and>
   map_get dangling_example ''9'' = None \<and>
   (\<exists>t. generateTree_stack 2 None ''now'' dangling_example = Inr t \<and>
        (\<forall>e \<in> set (nodes t). \<exists>rawNode. map_get dangling_example (fst e) = Some rawNode \<and>
            children (snd e) = action_targets rawNode \<and>
            children (snd e) =
              map (\<lambda>a. the (act_node a)) (filter (\<lambda>a. act_node a \<noteq> None) (actions (snd e)))) \<and>
        (\<forall>c. map_get dangling_example c = None \<longrightarrow> map_of (nodes t) c = None) \<and>
        (\<forall>e \<in> set (nodes t). \<forall>c \<in> set (children (snd e)).
            map_get dangling_example c = None \<longrightarrow> \<not> isValid (validateTree t))) \<and>
   generateTree_stack 1 None ''now'' dangling_example = Inl RangeError \<and>
   1 \<le> length dangling_example"
proof -
  have root0: "findRootNode dangling_example = Inr ''0'' \<and> length dangling_example < 2"
    by (simp add: findRootNode_def dangling_example_def raw_to_def)
  have absent: "map_get dangling_example ''9'' = None"
    by (simp add: dangling_example_def map_get_def)
  note th2 = generateTree_stack_absent_target[of 2 None "''now''" dangling_example]
  note th1 = generateTree_stack_absent_target[of 1 None "''now''" dangling_example]
  obtain t where t: "generateTree_stack 2 None ''now'' dangling_example = Inr t"
    using th2[THEN conjunct2, THEN conjunct1, rule_format, OF root0] by blast
  note facts = th2[THEN conjunct1, rule_format, OF t]
  have low: "generateTree_stack 1 None ''now'' dangling_example = Inl RangeError"
    by code_simp
  have "(RangeError = RootNotFound \<and> findRootNode dangling_example = Inl RootNotFound) \<or>
        (RangeError = RangeError \<and> 1 \<le> length dangling_example)"
    using th1[THEN conjunct2, THEN conjunct2, rule_format, OF low] .
  then have len: "1 \<le> length dangling_example" by simp
  have ex: "\<exists>t. generateTree_stack 2 None ''now'' dangling_example = Inr t \<and>
        (\<forall>e \<in> set (nodes t). \<exists>rawNode. map_get dangling_example (fst e) = Some rawNode \<and>
            children (snd e) = action_targets rawNode \<and>
            children (snd e) =
              map (\<lambda>a. the (act_node a)) (filter (\<lambda>a. act_node a \<noteq> None) (actions (snd e)))) \<and>
        (\<forall>c. map_get dangling_example c = None \<longrightarrow> map_of (nodes t) c = None) \<and>
        (\<forall>e \<in> set (nodes t). \<forall>c \<in> set (children (snd e)).
            map_get dangling_example c = None \<longrightarrow> \<not> isValid (validateTree t))"
    using t facts by (intro exI[of _ t] conjI) (elim conjE, assumption)+
  show ?thesis using root0 absent ex low len by (intro conjI) simp_all
qed

text \<open>
  Counterexample to claim C1 as stated: the only record of \<open>dangling_example\<close> carries the
  target \<open>9\<close>, which is absent from the collection, and \<open>generateTree\<close> returns a tree all the
  same, with \<open>9\<close> left in the children list of the root and no node for it.
\<close>

theorem absent_target_builds_counterexample:
  "action_targets (raw_to [] [''9'']) = [''9''] \<and>
   map_get dangling_example ''0'' = Some (raw_to [] [''9'']) \<and>
   map_get dangling_example ''9'' = None \<and>
   generateTree None ''now'' dangling_example =
     Inr \<lparr> nodes =
             [(''0'',
               \<lparr> node_id = ''0'', parentId = None, player = 0, street = 0, sequence = [],
                 actions = [\<lparr> act_type = ''C'', act_amount = 0, act_node = Some ''9'' \<rparr>],
                 children = [''9''], depth = 0, path = ''Root'', isTerminal = False,
                 hasHandData = False \<rparr>)],
           root = ''0'', maxDepth = Num 0, playerCount = 3,
           metadata = \<lparr> totalNodes = 1, terminalNodes = 0, generatedAt = ''now'',
                        version = ''1.0.0'' \<rparr> \<rparr>"
  by code_simp

section \<open>Properties of the navigator's cache and statistics\<close>

lemma set_map_set: "set (map_set m k v) \<subseteq> insert (k, v) (set m)"
  by (induction m) (auto split: if_splits)

lemma set_foldl_map_set:
  "set (foldl (\<lambda>cache e. map_set cache (fst e) (snd e)) acc xs) \<subseteq> set acc \<union> set xs"
proof (induction xs arbitrary: acc)
  case Nil
  then show ?case by simp
next
  case (Cons x xs)
  have "set (map_set acc (fst x) (snd x)) \<subseteq> insert x (set acc)"
    using set_map_set[of acc "fst x" "snd x"] by simp
  then show ?case using Cons[of "map_set acc (fst x) (snd x)"] by auto
qed

lemma set_buildCache: "set (buildCache t) \<subseteq> set (nodes t)"
  using set_foldl_map_set[of "[]" "nodes t"] by (simp add: buildCache_def)

lemma map_get_buildCache_None:
  assumes "map_of (nodes t) x = None"
  shows "map_get (buildCache t) x = None"
proof -
  have "x \<notin> fst ` set (nodes t)" using assms by (simp add: map_of_eq_None_iff)
  then have "x \<notin> fst ` set (buildCache t)" using set_buildCache by blast
  then show ?thesis by (simp add: map_get_def map_of_eq_None_iff)
qed

lemma foldl_map_set_distinct:
  "distinct (map fst (acc @ xs)) \<Longrightarrow>
     foldl (\<lambda>cache e. map_set cache (fst e) (snd e)) acc xs = acc @ xs"
proof (induction xs arbitrary: acc)
  case Nil
  then show ?case by simp
next
  case (Cons x xs)
  have "\<not> map_has acc (fst x)"
    using Cons.prems by (auto simp: map_has_def map_of_eq_None_iff)
  then have "map_set acc (fst x) (snd x) = acc @ [x]" by (simp add: map_set_new)
  then show ?case using Cons.IH[of "acc @ [x]"] Cons.prems by simp
qed

lemma buildCache_distinct: "distinct (map fst (nodes t)) \<Longrightarrow> buildCache t = nodes t"
  using foldl_map_set_distinct[of "[]" "nodes t"] by (simp add: buildCache_def)

lemma foldl_plus_sum_list: "foldl (\<lambda>a b. a + b) a xs = a + sum_list xs" for a :: int
  by (induction xs arbitrary: a) auto

text \<open>
  Claim C10. \<open>getTreeStats\<close> computes \<open>avgBranchingFactor\<close> as the sum of the children counts
  of the non-terminal nodes divided by the number of non-terminal nodes, and
  \<open>maxBranchingFactor\<close> as the maximum of these counts, with no guard for the case of no
  non-terminal node: on a tree in which every node is terminal the average is \<open>0 / 0 = NaN\<close>
  and the maximum is \<open>-Infinity\<close>. \<open>calculateMetrics\<close> guards that case and returns 0 for both;
  on every other tree it computes the same two numbers as \<open>getTreeStats\<close>.
\<close>

theorem getTreeStats_branching_factor:
  "(distinct (map fst (nodes t)) \<longrightarrow>
      stats_avgBranchingFactor (getTreeStats t) =
        js_quotient (sum_list (branching_factors t)) (int (length (branching_factors t))) \<and>
      stats_maxBranchingFactor (getTreeStats t) = math_max (branching_factors t) \<and>
      (branching_factors t \<noteq> [] \<longrightarrow>
         metrics_avgBranchingFactor (calculateMetrics t) = stats_avgBranchingFactor (getTreeStats t) \<and>
         metrics_maxBranchingFactor (calculateMetrics t) = stats_maxBranchingFactor (getTreeStats t))) \<and>
   (list_all (\<lambda>e. isTerminal (snd e)) (nodes t) \<longrightarrow>
      stats_avgBranchingFactor (getTreeStats t) = NaN \<and>
      stats_maxBranchingFactor (getTreeStats t) = NegInfinity \<and>
      metrics_avgBranchingFactor (calculateMetrics t) = Num 0 \<and>
      metrics_maxBranchingFactor (calculateMetrics t) = Num 0)"
proof -
  have general:
    "stats_avgBranchingFactor (getTreeStats t) =
        js_quotient (sum_list (branching_factors t)) (int (length (branching_factors t))) \<and>
      stats_maxBranchingFactor (getTreeStats t) = math_max (branching_factors t) \<and>
      (branching_factors t \<noteq> [] \<longrightarrow>
         metrics_avgBranchingFactor (calculateMetrics t) = stats_avgBranchingFactor (getTreeStats t) \<and>
         metrics_maxBranchingFactor (calculateMetrics t) = stats_maxBranchingFactor (getTreeStats t))"
    if d: "distinct (map fst (nodes t))"
  proof -
    have cache: "map snd (buildCache t) = map snd (nodes t)"
      using buildCache_distinct[OF d] by simp
    show ?thesis
      by (simp add: getTreeStats_def calculateMetrics_def Let_def cache branching_factors_def
          foldl_plus_sum_list)
  qed
  have terminal:
    "stats_avgBranchingFactor (getTreeStats t) = NaN \<and>
      stats_maxBranchingFactor (getTreeStats t) = NegInfinity \<and>
      metrics_avgBranchingFactor (calculateMetrics t) = Num 0 \<and>
      metrics_maxBranchingFactor (calculateMetrics t) = Num 0"
    if all: "list_all (\<lambda>e. isTerminal (snd e)) (nodes t)"
  proof -
    have "\<forall>n \<in> set (map snd (buildCache t)). isTerminal n"
      using all set_buildCache[of t] by (auto simp: list_all_iff)
    then have cache: "filter (\<lambda>n. \<not> isTerminal n) (map snd (buildCache t)) = []"
      by (simp add: filter_empty_conv)
    have "\<forall>n \<in> set (map snd (nodes t)). isTerminal n"
      using all by (auto simp: list_all_iff)
    then have own: "filter (\<lambda>n. \<not> isTerminal n) (map snd (nodes t)) = []"
      by (simp add: filter_empty_conv)
    show ?thesis
      using cache own by (simp add: getTreeStats_def calculateMetrics_def Let_def js_quotient_def)
  qed
  show ?thesis using general terminal by blast
qed

theorem getTreeStats_branching_factor_witness:
  "distinct (map fst (nodes built_branching)) \<and>
   branching_factors built_branching = [2, 1, 1] \<and>
   stats_avgBranchingFactor (getTreeStats built_branching) =
     Num (6004799503160661 / 4503599627370496) \<and>
   stats_maxBranchingFactor (getTreeStats built_branching) = Num 2 \<and>
   metrics_avgBranchingFactor (calculateMetrics built_branching) =
     Num (6004799503160661 / 4503599627370496) \<and>
   metrics_maxBranchingFactor (calculateMetrics built_branching) = Num 2 \<and>
   list_all (\<lambda>e. isTerminal (snd e)) (nodes single_node_tree) \<and>
   map fst (nodes single_node_tree) = [''0''] \<and>
   stats_avgBranchingFactor (getTreeStats single_node_tree) = NaN \<and>
   stats_maxBranchingFactor (getTreeStats single_node_tree) = NegInfinity \<and>
   metrics_avgBranchingFactor (calculateMetrics single_node_tree) = Num 0 \<and>
   metrics_maxBranchingFactor (calculateMetrics single_node_tree) = Num 0"
proof -
  have d: "distinct (map fst (nodes built_branching))" by code_simp
  have bf: "branching_factors built_branching = [2, 1, 1]" by code_simp
  have q: "js_quotient (sum_list [2, 1, 1]) (int (length [2, 1, 1 :: int])) =
             Num (6004799503160661 / 4503599627370496)"
    by (simp add: js_quotient_def nearest_double_def round_half_even_def bit_length.simps)
  have m: "math_max [2, 1, 1] = Num 2" by simp
  have h: "list_all (\<lambda>e. isTerminal (snd e)) (nodes single_node_tree)" by code_simp
  have k: "map fst (nodes single_node_tree) = [''0'']" by code_simp
  note a = getTreeStats_branching_factor[of built_branching, THEN conjunct1, rule_format, OF d]
  note b = getTreeStats_branching_factor[of single_node_tree, THEN conjunct2, rule_format, OF h]
  have a1: "stats_avgBranchingFactor (getTreeStats built_branching) =
              Num (6004799503160661 / 4503599627370496)"
    using a bf q by simp
  have a2: "stats_maxBranchingFactor (getTreeStats built_branching) = Num 2"
    using a bf m by simp
  have a3: "metrics_avgBranchingFactor (calculateMetrics built_branching) =
              Num (6004799503160661 / 4503599627370496) \<and>
            metrics_maxBranchingFactor (calculateMetrics built_branching) = Num 2"
    using a bf a1 a2 by simp
  show ?thesis using d bf a1 a2 a3 h k b by simp
qed

section \<open>Properties of findShortestPath\<close>

lemma child_path_snoc:
  assumes "child_path t p" and "map_of (nodes t) (last p) = Some node" and "c \<in> set (children node)"
  shows "child_path t (p @ [c])"
  using assms by (induction t p rule: child_path.induct) auto

lemma object_get_Own: "object_get obj k = Own v \<longleftrightarrow> map_of obj k = Some v"
  by (auto simp: object_get_def split: option.splits)

text \<open>Every path the search returns is a path of children links from the source to the target.\<close>

lemma bfs_loop_sound:
  assumes "bfs_loop t b queue visited = Inr (Some p)"
    and "\<forall>e \<in> set queue. child_path t (snd e) \<and> hd (snd e) = a \<and> last (snd e) = fst e"
  shows "child_path t p \<and> hd p = a \<and> last p = b"
  using assms
proof (induction t b queue visited rule: bfs_loop.induct)
  case (1 tree toNodeId visited)
  then show ?case by (simp add: bfs_loop.simps)
next
  case (2 tree toNodeId nodeId pth queue visited)
  show ?case
  proof (cases "nodeId = toNodeId")
    case True
    then show ?thesis using 2(4,5) by (simp add: bfs_loop.simps)
  next
    case ne: False
    show ?thesis
    proof (cases "nodeId \<in> visited")
      case True
      then show ?thesis using 2(1)[OF ne True] 2(4,5) ne by (simp add: bfs_loop.simps)
    next
      case nv: False
      show ?thesis
      proof (cases "object_get (nodes tree) nodeId")
        case (Own node)
        let ?new = "map (\<lambda>childId. (childId, pth @ [childId]))
                      (filter (\<lambda>childId. childId \<notin> insert nodeId visited) (children node))"
        have res: "bfs_loop tree toNodeId (queue @ ?new) (insert nodeId visited) = Inr (Some p)"
          using 2(4) ne nv Own by (simp add: bfs_loop.simps)
        have head: "child_path tree pth" "hd pth = a" "last pth = nodeId"
          using 2(5) by simp_all
        have node: "map_of (nodes tree) (last pth) = Some node"
          using Own head(3) by (simp add: object_get_Own)
        have "pth \<noteq> []" using head(1) by (cases pth) auto
        then have "\<forall>e \<in> set ?new. child_path tree (snd e) \<and> hd (snd e) = a \<and> last (snd e) = fst e"
          using head child_path_snoc[OF head(1) node] by auto
        then have "\<forall>e \<in> set (queue @ ?new).
                     child_path tree (snd e) \<and> hd (snd e) = a \<and> last (snd e) = fst e"
          using 2(5) by auto
        then show ?thesis using 2(2)[OF ne nv Own res] by simp
      next
        case Inherited
        then show ?thesis using 2(4) ne nv by (simp add: bfs_loop.simps)
      next
        case Undefined
        then show ?thesis using 2(3)[OF ne nv Undefined] 2(4,5) ne nv by (simp add: bfs_loop.simps)
      qed
    qed
  qed
qed

lemma findShortestPath_sound:
  assumes "findShortestPath t a b = Inr (Some p)"
  shows "child_path t p \<and> hd p = a \<and> last p = b"
  using bfs_loop_sound[of t b "[(a, [a])]" "{}" p a] assms by (simp add: findShortestPath_def)

lemma child_path_last_is_child:
  assumes "child_path t p" and "hd p \<noteq> last p"
  shows "\<exists>k node. (k, node) \<in> set (nodes t) \<and> last p \<in> set (children node)"
  using assms
proof (induction t p rule: child_path.induct)
  case (3 tree x y zs)
  show ?case
  proof (cases zs)
    case Nil
    then show ?thesis using 3(2) by (auto split: option.splits dest: map_of_SomeD)
  next
    case (Cons z zs')
    show ?thesis
    proof (cases "y = last (y # zs)")
      case True
      then show ?thesis using 3(2) by (auto split: option.splits dest: map_of_SomeD)
    next
      case False
      then show ?thesis using 3 by simp
    qed
  qed
qed simp_all

text \<open>
  Counterexamples to claim C6 as stated. \<open>zz\<close> is not a node of the tree generated from
  \<open>tree_example\<close>, and \<open>findShortestPath\<close> with \<open>zz\<close> as both source and target returns the list
  \<open>[zz]\<close>, not \<open>null\<close>. \<open>9\<close> is not a node of the tree generated from \<open>dangling_example\<close>, and
  \<open>findShortestPath\<close> from \<open>0\<close> to \<open>9\<close> returns the list \<open>[0, 9]\<close>.
\<close>

theorem unknown_identifier_path_counterexample:
  "generateTree None ''now'' tree_example = Inr built_example \<and>
   map_of (nodes built_example) ''zz'' = None \<and>
   findShortestPath built_example ''zz'' ''zz'' = Inr (Some [''zz'']) \<and>
   generateTree None ''now'' dangling_example = Inr built_dangling \<and>
   map_of (nodes built_dangling) ''9'' = None \<and>
   findShortestPath built_dangling ''0'' ''9'' = Inr (Some [''0'', ''9''])"
  by code_simp

text \<open>
  Claim C8, at the input where the code departs from it. \<open>constructor\<close> is not a node of the
  tree generated from \<open>tree_example\<close> and no path of children links leads from it to the node
  \<open>0\<close>; the claim has \<open>findShortestPath\<close> return the absence signal, the code throws a
  \<open>TypeError\<close>: \<open>tree.nodes["constructor"]\<close> is the inherited \<open>Object.prototype.constructor\<close>,
  which passes the \<open>!node\<close> guard and has no \<open>children\<close>.
\<close>

theorem findShortestPath_inherited_name_throws:
  "generateTree None ''now'' tree_example = Inr built_example \<and>
   map_of (nodes built_example) ''constructor'' = None \<and>
   (\<nexists>p. child_path built_example p \<and> hd p = ''constructor'' \<and> last p = ''0'') \<and>
   findShortestPath built_example ''constructor'' ''0'' = Inl TypeError"
proof -
  have g: "generateTree None ''now'' tree_example = Inr built_example" by code_simp
  have m: "map_of (nodes built_example) ''constructor'' = None" by code_simp
  have f: "findShortestPath built_example ''constructor'' ''0'' = Inl TypeError" by code_simp
  have "\<not> (child_path built_example p \<and> hd p = ''constructor'' \<and> last p = ''0'')" for p
  proof (cases p)
    case Nil
    then show ?thesis by simp
  next
    case (Cons x xs)
    then show ?thesis using m by (cases xs) auto
  qed
  then show ?thesis using g m f by blast
qed

section \<open>The search returns a shortest path\<close>

lemma child_path_nonempty: "child_path t p \<Longrightarrow> p \<noteq> []"
  by (cases p) auto

lemma child_path_append:
  assumes "child_path t q" and "child_path t r" and "last q = hd r"
  shows "child_path t (q @ tl r)"
  using assms
proof (induction t q rule: child_path.induct)
  case (2 tree x)
  then have "r \<noteq> []" by (auto dest: child_path_nonempty)
  then show ?case using 2 by (cases r) auto
qed auto

lemma child_path_drop: "child_path t p \<Longrightarrow> i < length p \<Longrightarrow> child_path t (drop i p)"
proof (induction t p arbitrary: i rule: child_path.induct)
  case (3 tree x y zs)
  then show ?case by (cases i) auto
qed auto

lemma child_path_step:
  "child_path t p \<Longrightarrow> Suc i < length p \<Longrightarrow>
     \<exists>node. map_of (nodes t) (p ! i) = Some node \<and> p ! Suc i \<in> set (children node)"
proof (induction t p arbitrary: i rule: child_path.induct)
  case (3 tree x y zs)
  show ?case
  proof (cases i)
    case 0
    then show ?thesis using 3(2) by (auto split: option.splits)
  next
    case (Suc j)
    then show ?thesis using 3 by auto
  qed
qed auto

lemma last_append_tl: "q \<noteq> [] \<Longrightarrow> d \<noteq> [] \<Longrightarrow> last q = hd d \<Longrightarrow> last (q @ tl d) = last d"
  by (cases d) (auto simp: last_append)

text \<open>Every prefix of a shortest path is a shortest path to its end.\<close>

lemma shortest_prefix:
  assumes sp: "shortest_links_path t a b sp" and i: "i < length sp"
    and q: "links_path t a (sp ! i) q"
  shows "Suc i \<le> length q"
proof -
  let ?d = "drop i sp"
  have cp: "child_path t sp" and lst: "last sp = b"
    using sp by (simp_all add: shortest_links_path_def links_path_def)
  have d: "child_path t ?d" using cp i by (rule child_path_drop)
  have dne: "?d \<noteq> []" using i by simp
  have hd_d: "hd ?d = sp ! i" using i by (simp add: hd_drop_conv_nth)
  have last_d: "last ?d = b" using i lst by simp
  have qp: "child_path t q" "hd q = a" "last q = sp ! i"
    using q by (simp_all add: links_path_def)
  have qne: "q \<noteq> []" using qp(1) by (rule child_path_nonempty)
  have "child_path t (q @ tl ?d)"
    using qp(1) d qp(3) hd_d by (intro child_path_append) simp_all
  moreover have "hd (q @ tl ?d) = a" using qne qp(2) by simp
  moreover have "last (q @ tl ?d) = b"
    using last_append_tl[OF qne dne] qp(3) hd_d last_d by simp
  ultimately have "links_path t a b (q @ tl ?d)" by (simp add: links_path_def)
  moreover have "\<forall>q. links_path t a b q \<longrightarrow> length sp \<le> length q"
    using sp by (simp add: shortest_links_path_def)
  ultimately have "length sp \<le> length (q @ tl ?d)" by blast
  then show ?thesis using i by simp
qed

lemma shortest_exists:
  assumes "links_path t a b q"
  shows "\<exists>sp. shortest_links_path t a b sp"
  using ex_has_least_nat[of "links_path t a b" q length] assms
  by (auto simp: shortest_links_path_def)

lemma links_path_snoc:
  assumes "links_path t a v p" and "map_of (nodes t) v = Some node" and "c \<in> set (children node)"
  shows "links_path t a c (p @ [c])"
proof -
  have p: "child_path t p" "hd p = a" "last p = v" using assms(1) by (simp_all add: links_path_def)
  have "p \<noteq> []" using p(1) by (rule child_path_nonempty)
  moreover have "child_path t (p @ [c])"
    using child_path_snoc[OF p(1)] assms(2,3) p(3) by simp
  ultimately show ?thesis using p(2) by (simp add: links_path_def)
qed

lemma bfs_inv_front:
  assumes "bfs_inv t a sp queue visited"
  shows "\<exists>i e. i < length sp \<and> sp ! i \<notin> visited \<and> e \<in> set queue \<and> fst e = sp ! i \<and>
               length (snd e) = Suc i"
  using assms unfolding bfs_inv_def by blast

lemma bfs_inv_head_length:
  assumes "bfs_inv t a sp ((v, p) # queue) visited"
  shows "length p \<le> length sp"
proof -
  obtain i e where i: "i < length sp" and e: "e \<in> set ((v, p) # queue)" "length (snd e) = Suc i"
    using bfs_inv_front[OF assms] by blast
  have "sorted_wrt level_rel ((v, p) # queue)" using assms by (simp add: bfs_inv_def)
  then have "length p \<le> length (snd e)" using e(1) by (auto simp: level_rel_def)
  then show ?thesis using i e(2) by simp
qed

lemma shortest_inner_is_node:
  assumes sp: "shortest_links_path t a b sp" and i: "i < length sp" and ne: "sp ! i \<noteq> b"
  shows "Suc i < length sp \<and>
         (\<exists>node. map_of (nodes t) (sp ! i) = Some node \<and> sp ! Suc i \<in> set (children node))"
proof -
  have cp: "child_path t sp" and lst: "last sp = b"
    using sp by (simp_all add: shortest_links_path_def links_path_def)
  have "sp \<noteq> []" using i by auto
  then have "sp ! (length sp - 1) = b" using lst by (simp add: last_conv_nth)
  then have "i \<noteq> length sp - 1" using ne by auto
  then have "Suc i < length sp" using i by simp
  then show ?thesis using child_path_step[OF cp] by simp
qed

lemma bfs_inv_skip:
  assumes inv: "bfs_inv t a sp ((v, p) # queue) visited" and vis: "v \<in> visited"
  shows "bfs_inv t a sp queue visited"
proof -
  have paths: "\<forall>e \<in> set queue. links_path t a (fst e) (snd e)"
    using inv by (simp add: bfs_inv_def)
  have sorted: "sorted_wrt level_rel queue" using inv by (simp add: bfs_inv_def)
  have seen: "\<forall>x \<in> visited. \<exists>q. links_path t a x q \<and> (\<forall>e \<in> set queue. length q \<le> length (snd e))"
    using inv unfolding bfs_inv_def by (meson list.set_intros(2))
  obtain i e where i: "i < length sp" "sp ! i \<notin> visited"
    and e: "e \<in> set ((v, p) # queue)" "fst e = sp ! i" "length (snd e) = Suc i"
    using bfs_inv_front[OF inv] by blast
  have "e \<noteq> (v, p)" using e(2) i(2) vis by auto
  then have "e \<in> set queue" using e(1) by simp
  then have front: "\<exists>i < length sp. sp ! i \<notin> visited \<and>
      (\<exists>e \<in> set queue. fst e = sp ! i \<and> length (snd e) = Suc i)"
    using i e by blast
  show ?thesis using paths sorted seen front by (simp add: bfs_inv_def)
qed

lemma bfs_inv_head_visited:
  assumes inv: "bfs_inv t a sp ((v, p) # queue) visited"
  shows "\<forall>x \<in> insert v visited.
           \<exists>q. links_path t a x q \<and> length q \<le> length p \<and>
               (\<forall>e \<in> set queue. length q \<le> length (snd e))"
proof
  fix x assume x: "x \<in> insert v visited"
  have sorted: "sorted_wrt level_rel ((v, p) # queue)" using inv by (simp add: bfs_inv_def)
  show "\<exists>q. links_path t a x q \<and> length q \<le> length p \<and>
            (\<forall>e \<in> set queue. length q \<le> length (snd e))"
  proof (cases "x \<in> visited")
    case True
    then obtain q where q: "links_path t a x q"
        "\<forall>e \<in> set ((v, p) # queue). length q \<le> length (snd e)"
      using inv unfolding bfs_inv_def by blast
    then show ?thesis by auto
  next
    case False
    then have "x = v" using x by simp
    moreover have "links_path t a v p" using inv by (simp add: bfs_inv_def)
    moreover have "\<forall>e \<in> set queue. length p \<le> length (snd e)"
      using sorted by (auto simp: level_rel_def)
    ultimately show ?thesis by auto
  qed
qed

lemma bfs_inv_undefined:
  assumes inv: "bfs_inv t a sp ((v, p) # queue) visited"
    and sp: "shortest_links_path t a b sp" and vb: "v \<noteq> b"
    and undef: "map_of (nodes t) v = None"
  shows "bfs_inv t a sp queue (insert v visited)"
proof -
  have paths: "\<forall>e \<in> set queue. links_path t a (fst e) (snd e)"
    using inv by (simp add: bfs_inv_def)
  have sorted: "sorted_wrt level_rel queue" using inv by (simp add: bfs_inv_def)
  have seen: "\<forall>x \<in> insert v visited.
      \<exists>q. links_path t a x q \<and> (\<forall>e \<in> set queue. length q \<le> length (snd e))"
    using bfs_inv_head_visited[OF inv] by blast
  obtain i e where i: "i < length sp" "sp ! i \<notin> visited"
    and e: "e \<in> set ((v, p) # queue)" "fst e = sp ! i" "length (snd e) = Suc i"
    using bfs_inv_front[OF inv] by blast
  have "sp ! i \<noteq> v"
  proof
    assume "sp ! i = v"
    then have "\<exists>node. map_of (nodes t) v = Some node"
      using shortest_inner_is_node[OF sp i(1)] vb by auto
    then show False using undef by simp
  qed
  then have "e \<in> set queue" "sp ! i \<notin> insert v visited" using e i(2) by auto
  then have front: "\<exists>i < length sp. sp ! i \<notin> insert v visited \<and>
      (\<exists>e \<in> set queue. fst e = sp ! i \<and> length (snd e) = Suc i)"
    using i(1) e(2,3) by blast
  show ?thesis using paths sorted seen front by (simp add: bfs_inv_def)
qed

lemma bfs_inv_expand:
  assumes inv: "bfs_inv t a sp ((v, p) # queue) visited"
    and sp: "shortest_links_path t a b sp" and vb: "v \<noteq> b" and nv: "v \<notin> visited"
    and own: "map_of (nodes t) v = Some node"
  defines "new \<equiv> map (\<lambda>childId. (childId, p @ [childId]))
                    (filter (\<lambda>childId. childId \<notin> insert v visited) (children node))"
  shows "bfs_inv t a sp (queue @ new) (insert v visited)"
proof -
  have head: "links_path t a v p" using inv by (simp add: bfs_inv_def)
  have sorted0: "sorted_wrt level_rel ((v, p) # queue)" using inv by (simp add: bfs_inv_def)
  have new_len: "\<forall>e \<in> set new. length (snd e) = length p + 1" by (auto simp: new_def)
  have paths: "\<forall>e \<in> set (queue @ new). links_path t a (fst e) (snd e)"
  proof -
    have "\<forall>e \<in> set queue. links_path t a (fst e) (snd e)" using inv by (simp add: bfs_inv_def)
    moreover have "\<forall>e \<in> set new. links_path t a (fst e) (snd e)"
      using links_path_snoc[OF head own] by (auto simp: new_def)
    ultimately show ?thesis by auto
  qed
  have sorted: "sorted_wrt level_rel (queue @ new)"
  proof -
    have "sorted_wrt level_rel queue" using sorted0 by simp
    moreover have "sorted_wrt level_rel new"
      using new_len by (auto simp: sorted_wrt_iff_nth_less level_rel_def)
    moreover have "\<forall>x \<in> set queue. \<forall>y \<in> set new. level_rel x y"
      using sorted0 new_len by (auto simp: level_rel_def)
    ultimately show ?thesis by (simp add: sorted_wrt_append)
  qed
  have seen: "\<forall>x \<in> insert v visited.
      \<exists>q. links_path t a x q \<and> (\<forall>e \<in> set (queue @ new). length q \<le> length (snd e))"
  proof
    fix x assume "x \<in> insert v visited"
    then obtain q where q: "links_path t a x q" "length q \<le> length p"
        "\<forall>e \<in> set queue. length q \<le> length (snd e)"
      using bfs_inv_head_visited[OF inv] by blast
    have "\<forall>e \<in> set new. length q \<le> length (snd e)" using new_len q(2) by auto
    then show "\<exists>q. links_path t a x q \<and> (\<forall>e \<in> set (queue @ new). length q \<le> length (snd e))"
      using q(1,3) by auto
  qed
  obtain i e where i: "i < length sp" "sp ! i \<notin> visited"
    and e: "e \<in> set ((v, p) # queue)" "fst e = sp ! i" "length (snd e) = Suc i"
    using bfs_inv_front[OF inv] by blast
  have front: "\<exists>i < length sp. sp ! i \<notin> insert v visited \<and>
      (\<exists>e \<in> set (queue @ new). fst e = sp ! i \<and> length (snd e) = Suc i)"
  proof (cases "sp ! i = v")
    case False
    then have "e \<in> set (queue @ new)" "sp ! i \<notin> insert v visited" using e i(2) by auto
    then show ?thesis using i(1) e(2,3) by blast
  next
    case True
    have "length p \<le> length (snd e)" using sorted0 e(1) by (auto simp: level_rel_def)
    moreover have "Suc i \<le> length p"
      using shortest_prefix[OF sp i(1)] head True by simp
    ultimately have lp: "length p = Suc i" using e(3) by simp
    obtain node' where step: "Suc i < length sp" "map_of (nodes t) (sp ! i) = Some node'"
        "sp ! Suc i \<in> set (children node')"
      using shortest_inner_is_node[OF sp i(1)] True vb by auto
    have node': "node' = node" using step(2) own True by simp
    let ?c = "sp ! Suc i"
    have fresh: "?c \<notin> insert v visited"
    proof
      assume "?c \<in> insert v visited"
      then obtain q where q: "links_path t a ?c q" "length q \<le> length p"
        using bfs_inv_head_visited[OF inv] by blast
      have "Suc (Suc i) \<le> length q" using shortest_prefix[OF sp step(1) q(1)] .
      then show False using q(2) lp by simp
    qed
    have "(?c, p @ [?c]) \<in> set new"
      using step(3) node' fresh by (auto simp: new_def)
    then have "\<exists>e \<in> set (queue @ new). fst e = ?c \<and> length (snd e) = Suc (Suc i)"
      using lp by force
    then show ?thesis using step(1) fresh by blast
  qed
  show ?thesis using paths sorted seen front by (simp add: bfs_inv_def)
qed

text \<open>
  Under the invariant the loop ends with a path no longer than the shortest one, unless it
  throws.
\<close>

lemma bfs_loop_shortest:
  assumes "shortest_links_path t a b sp" and "bfs_inv t a sp queue visited"
  shows "bfs_loop t b queue visited = Inl TypeError \<or>
         (\<exists>p. bfs_loop t b queue visited = Inr (Some p) \<and> length p \<le> length sp)"
  using assms
proof (induction t b queue visited rule: bfs_loop.induct)
  case (1 tree toNodeId visited)
  then show ?case by (simp add: bfs_inv_def)
next
  case (2 tree toNodeId nodeId pth queue visited)
  note sp = 2(4) and inv = 2(5)
  show ?case
  proof (cases "nodeId = toNodeId")
    case True
    then show ?thesis using bfs_inv_head_length[OF inv] by (simp add: bfs_loop.simps)
  next
    case ne: False
    show ?thesis
    proof (cases "nodeId \<in> visited")
      case True
      then show ?thesis
        using 2(1)[OF ne True sp bfs_inv_skip[OF inv True]] ne by (simp add: bfs_loop.simps)
    next
      case nv: False
      show ?thesis
      proof (cases "object_get (nodes tree) nodeId")
        case (Own node)
        then have own: "map_of (nodes tree) nodeId = Some node" by (simp add: object_get_Own)
        show ?thesis
          using 2(2)[OF ne nv Own sp bfs_inv_expand[OF inv sp ne nv own]] ne nv Own
          by (simp add: bfs_loop.simps)
      next
        case Inherited
        then show ?thesis using ne nv by (simp add: bfs_loop.simps)
      next
        case Undefined
        then have undef: "map_of (nodes tree) nodeId = None"
          by (auto simp: object_get_def split: option.splits)
        show ?thesis
          using 2(3)[OF ne nv Undefined sp bfs_inv_undefined[OF inv sp ne undef]] ne nv Undefined
          by (simp add: bfs_loop.simps)
      qed
    qed
  qed
qed

lemma bfs_inv_initial:
  assumes "shortest_links_path t a b sp"
  shows "bfs_inv t a sp [(a, [a])] {}"
proof -
  have "child_path t sp" "hd sp = a"
    using assms by (simp_all add: shortest_links_path_def links_path_def)
  then have "0 < length sp" "sp ! 0 = a"
    by (auto dest: child_path_nonempty simp: hd_conv_nth)
  then show ?thesis by (auto simp: bfs_inv_def links_path_def)
qed

text \<open>The search never throws on a tree and a source free of inherited names.\<close>

lemma bfs_loop_no_error:
  assumes "plain_children t" and "\<forall>e \<in> set queue. plain_id t (fst e)"
  shows "bfs_loop t b queue visited \<noteq> Inl TypeError"
  using assms
proof (induction t b queue visited rule: bfs_loop.induct)
  case (1 tree toNodeId visited)
  then show ?case by (simp add: bfs_loop.simps)
next
  case (2 tree toNodeId nodeId pth queue visited)
  show ?case
  proof (cases "nodeId = toNodeId")
    case True
    then show ?thesis by (simp add: bfs_loop.simps)
  next
    case ne: False
    show ?thesis
    proof (cases "nodeId \<in> visited")
      case True
      then show ?thesis using 2(1)[OF ne True 2(4)] 2(5) ne by (simp add: bfs_loop.simps)
    next
      case nv: False
      show ?thesis
      proof (cases "object_get (nodes tree) nodeId")
        case (Own node)
        then have "(nodeId, node) \<in> set (nodes tree)"
          by (auto simp: object_get_Own dest: map_of_SomeD)
        then have "\<forall>c \<in> set (children node). plain_id tree c"
          using 2(4) by (force simp: plain_children_def list_all_iff)
        then have "\<forall>e \<in> set (queue @ map (\<lambda>childId. (childId, pth @ [childId]))
                     (filter (\<lambda>childId. childId \<notin> insert nodeId visited) (children node))).
                     plain_id tree (fst e)"
          using 2(5) by auto
        then show ?thesis using 2(2)[OF ne nv Own 2(4)] ne nv Own by (simp add: bfs_loop.simps)
      next
        case Inherited
        then have False using 2(5) by (auto simp: object_get_def plain_id_def split: option.splits if_splits)
        then show ?thesis ..
      next
        case Undefined
        then show ?thesis using 2(3)[OF ne nv Undefined 2(4)] 2(5) ne nv by (simp add: bfs_loop.simps)
      qed
    qed
  qed
qed

text \<open>
  What \<open>findShortestPath\<close> computes on a tree and a source free of inherited names: it does not
  throw; it returns a list exactly when a path of children links leads from the source to the
  target; and the list it returns is such a path of minimal length.
\<close>

theorem findShortestPath_correct:
  assumes "plain_children t" and "plain_id t a"
  shows "findShortestPath t a b \<noteq> Inl TypeError \<and>
         (findShortestPath t a b = Inr None \<longleftrightarrow> (\<nexists>q. links_path t a b q)) \<and>
         (\<forall>p. findShortestPath t a b = Inr (Some p) \<longrightarrow>
              links_path t a b p \<and> (\<forall>q. links_path t a b q \<longrightarrow> length p \<le> length q))"
proof -
  have noerr: "findShortestPath t a b \<noteq> Inl TypeError"
    using bfs_loop_no_error[OF assms(1), of "[(a, [a])]" b "{}"] assms(2)
    by (simp add: findShortestPath_def)
  have sound: "links_path t a b p" if "findShortestPath t a b = Inr (Some p)" for p
    using findShortestPath_sound[OF that] by (simp add: links_path_def)
  have least: "\<exists>p. findShortestPath t a b = Inr (Some p) \<and> length p \<le> length q"
    if q: "links_path t a b q" for q
  proof -
    obtain sp where sp: "shortest_links_path t a b sp" using shortest_exists[OF q] by blast
    have "length sp \<le> length q" using sp q by (simp add: shortest_links_path_def)
    moreover have "\<exists>p. findShortestPath t a b = Inr (Some p) \<and> length p \<le> length sp"
      using bfs_loop_shortest[OF sp bfs_inv_initial[OF sp]] noerr
      by (simp add: findShortestPath_def)
    ultimately show ?thesis by (meson order_trans)
  qed
  have none: "findShortestPath t a b = Inr None \<longleftrightarrow> (\<nexists>q. links_path t a b q)"
  proof
    assume "findShortestPath t a b = Inr None"
    then show "\<nexists>q. links_path t a b q" using least by fastforce
  next
    assume no: "\<nexists>q. links_path t a b q"
    show "findShortestPath t a b = Inr None"
    proof (cases "findShortestPath t a b")
      case (Inl e)
      then show ?thesis using noerr by (cases e) simp
    next
      case (Inr r)
      then show ?thesis using sound no by (cases r) auto
    qed
  qed
  have some: "links_path t a b p \<and> (\<forall>q. links_path t a b q \<longrightarrow> length p \<le> length q)"
    if "findShortestPath t a b = Inr (Some p)" for p
    using sound[OF that] least that by fastforce
  show ?thesis using noerr none some by blast
qed

section \<open>Queries with an identifier that is not a node\<close>

text \<open>
  Claim C6 (amended). For every tree and every identifier \<open>x\<close> that is not among the tree's
  nodes: \<open>getNavigationPath(x)\<close> returns \<open>null\<close>; \<open>findShortestPath(tree, x, x)\<close> returns \<open>[x]\<close>,
  because the target test precedes every lookup; \<open>findShortestPath(tree, x, y)\<close> with \<open>y \<noteq> x\<close>
  returns \<open>null\<close>, provided \<open>x\<close> does not name a member of \<open>Object.prototype\<close>; and
  \<open>findShortestPath(tree, y, x)\<close> with \<open>y \<noteq> x\<close> returns \<open>null\<close> when \<open>x\<close> is not listed in any
  node's children, provided neither \<open>y\<close> nor an entry of a children list is an inherited name
  (without that proviso it still returns no list).
\<close>

theorem unknown_identifier_queries:
  assumes "map_of (nodes t) x = None"
  shows "getNavigationPath t x = Some None \<and>
         findShortestPath t x x = Inr (Some [x]) \<and>
         (\<forall>y. y \<noteq> x \<and> x \<notin> set object_prototype_names \<longrightarrow> findShortestPath t x y = Inr None) \<and>
         (\<forall>y. y \<noteq> x \<and> plain_children t \<and> plain_id t y \<and>
              (\<forall>e \<in> set (nodes t). x \<notin> set (children (snd e))) \<longrightarrow>
              findShortestPath t y x = Inr None) \<and>
         (\<forall>y p. y \<noteq> x \<and> (\<forall>e \<in> set (nodes t). x \<notin> set (children (snd e))) \<longrightarrow>
                findShortestPath t y x \<noteq> Inr (Some p))"
proof -
  have nav: "getNavigationPath t x = Some None"
    using map_get_buildCache_None[OF assms] by (simp add: getNavigationPath_def Let_def)
  have same: "findShortestPath t x x = Inr (Some [x])"
    by (simp add: findShortestPath_def bfs_loop.simps)
  have src: "findShortestPath t x y = Inr None" if "y \<noteq> x" "x \<notin> set object_prototype_names" for y
  proof -
    have "object_get (nodes t) x = Undefined" using assms that(2) by (simp add: object_get_def)
    then show ?thesis using that(1) by (simp add: findShortestPath_def bfs_loop.simps)
  qed
  have nopath: "\<nexists>q. links_path t y x q"
    if "y \<noteq> x" "\<forall>e \<in> set (nodes t). x \<notin> set (children (snd e))" for y
  proof
    assume "\<exists>q. links_path t y x q"
    then obtain q where q: "child_path t q" "hd q = y" "last q = x"
      by (auto simp: links_path_def)
    then have "\<exists>k node. (k, node) \<in> set (nodes t) \<and> last q \<in> set (children node)"
      using that(1) by (intro child_path_last_is_child) auto
    then show False using that(2) q(3) by force
  qed
  have dst: "findShortestPath t y x = Inr None"
    if "y \<noteq> x" "plain_children t" "plain_id t y"
      "\<forall>e \<in> set (nodes t). x \<notin> set (children (snd e))" for y
    using findShortestPath_correct[OF that(2,3), of x] nopath[OF that(1,4)] by blast
  have weak: "findShortestPath t y x \<noteq> Inr (Some p)"
    if "y \<noteq> x" "\<forall>e \<in> set (nodes t). x \<notin> set (children (snd e))" for y p
  proof
    assume "findShortestPath t y x = Inr (Some p)"
    then have "links_path t y x p"
      using findShortestPath_sound by (simp add: links_path_def)
    then show False using nopath[OF that] by blast
  qed
  show ?thesis using nav same src dst weak by blast
qed

theorem unknown_identifier_queries_witness:
  "map_of (nodes built_example) ''zz'' = None \<and>
   ''zz'' \<notin> set object_prototype_names \<and>
   plain_children built_example \<and> plain_id built_example ''0'' \<and>
   list_all (\<lambda>e. ''zz'' \<notin> set (children (snd e))) (nodes built_example) \<and>
   getNavigationPath built_example ''zz'' = Some None \<and>
   findShortestPath built_example ''zz'' ''zz'' = Inr (Some [''zz'']) \<and>
   findShortestPath built_example ''zz'' ''0'' = Inr None \<and>
   findShortestPath built_example ''0'' ''zz'' = Inr None"
proof -
  have h: "map_of (nodes built_example) ''zz'' = None"
    by code_simp
  have n0: "''zz'' \<notin> set object_prototype_names"
    by (simp add: object_prototype_names_def)
  have n: "''0'' \<noteq> ''zz'' \<and> ''zz'' \<notin> set object_prototype_names"
    using n0 by simp
  have pc: "plain_children built_example" by code_simp
  have pid: "plain_id built_example ''0''" by code_simp
  have l: "list_all (\<lambda>e. ''zz'' \<notin> set (children (snd e))) (nodes built_example)"
    by code_simp
  then have c: "''0'' \<noteq> ''zz'' \<and> plain_children built_example \<and> plain_id built_example ''0'' \<and>
      (\<forall>e \<in> set (nodes built_example). ''zz'' \<notin> set (children (snd e)))"
    using pc pid by (simp add: list_all_iff)
  note th = unknown_identifier_queries[OF h]
  have a1: "getNavigationPath built_example ''zz'' = Some None"
    by (rule th[THEN conjunct1])
  have a2: "findShortestPath built_example ''zz'' ''zz'' = Inr (Some [''zz''])"
    by (rule th[THEN conjunct2, THEN conjunct1])
  have a3: "findShortestPath built_example ''zz'' ''0'' = Inr None"
    by (rule th[THEN conjunct2, THEN conjunct2, THEN conjunct1, rule_format, OF n])
  have a4: "findShortestPath built_example ''0'' ''zz'' = Inr None"
    by (rule th[THEN conjunct2, THEN conjunct2, THEN conjunct2, THEN conjunct1, rule_format, OF c])
  show ?thesis using h n0 pc pid l a1 a2 a3 a4 by (intro conjI)
qed

end
